theory Spec2Isabelle
  imports Main "HOL-Library.Sublist"
begin

section \<open>Go values shared by the client and the extractor\<close>

text \<open>
  A Go \<open>error\<close> value, by where the client gets it from: the HTTP transport
  (\<open>c.client.Do\<close>), reading a body (\<open>io.ReadAll\<close>), \<open>fmt.Errorf("%s", body)\<close>,
  \<open>html.Parse\<close> and \<open>json.Unmarshal\<close>. The string is the message.
\<close>

datatype error =
    TransportError string
  | ReadError string
  | Errorf string
  | ParseError string
  | DecodeError string

text \<open>
  A run-time panic is not an \<open>error\<close> value: the call does not return at all.
  The only panic the modelled code can raise is the dereference of a nil pointer.
\<close>

datatype panic = NilPointerDereference

text \<open>
  Go's \<open>int\<close> and \<open>time.Duration\<close> are 64-bit two's complement integers; \<open>wrap64\<close>
  is the value an arithmetic result has after wrap-around.
\<close>

definition wrap64 :: "int \<Rightarrow> int" where
  "wrap64 x = (x + 2 ^ 63) mod 2 ^ 64 - 2 ^ 63"

section \<open>Adaptive paginator (genius.go)\<close>

text \<open>
  The part of a decoded \<open>GeniusResponse\<close> that the paginators read:
  \<open>response.Response.Songs\<close>, \<open>response.Response.Albums\<close> and
  \<open>response.Response.NextPage\<close> (0 when the JSON field is null or absent). The
  declaration of the type is not among the sources; the fields are the ones the code
  reads, \<open>NextPage\<close> being assigned to the \<open>int\<close> variable \<open>page\<close>.
\<close>

record ('s, 'a) Response =
  Songs :: "'s list"
  Albums :: "'a list"
  NextPage :: int

text \<open>
  \<open>getPerPage\<close>, with the subtraction in 64-bit arithmetic. The parameter \<open>total\<close>
  of the code is written \<open>total'\<close>.
\<close>

definition getPerPage :: "int \<Rightarrow> int \<Rightarrow> int \<Rightarrow> int" where
  "getPerPage total' fetched perPage =
     (let newPerPage = wrap64 (total' - fetched)
      in if newPerPage < perPage then newPerPage else perPage)"

text \<open>
  The loop of \<open>GetArtistSongs\<close>. The results of the successive calls of
  \<open>getArtistSongsPage\<close> (an error of the request or of the decoding, or the decoded
  response) are given as a list, consumed one per iteration; the function returns the
  requests it issued, as pairs \<open>(per_page, page)\<close>, and the value returned by the
  Go function, or \<open>None\<close> when the loop is still waiting for a page after the
  last given result.
\<close>

fun GetArtistSongs_loop ::
  "int \<Rightarrow> int \<Rightarrow> bool \<Rightarrow> (error + ('s, 'a) Response) list \<Rightarrow> int \<Rightarrow> int \<Rightarrow> 's list
     \<Rightarrow> (int \<times> int) list \<times> (error + 's list) option" where
  "GetArtistSongs_loop total' perPage fetchUntilEnd [] page newPerPage songs =
     (if fetchUntilEnd \<or> newPerPage > 0 then ([(newPerPage, page)], None)
      else ([], Some (Inr songs)))"
| "GetArtistSongs_loop total' perPage fetchUntilEnd (r # rest) page newPerPage songs =
     (if fetchUntilEnd \<or> newPerPage > 0 then
        (case r of
           Inl err \<Rightarrow> ([(newPerPage, page)], Some (Inl err))
         | Inr response \<Rightarrow>
             if fetchUntilEnd \<and> NextPage response = 0
             then ([(newPerPage, page)], Some (Inr songs))
             else
               (let songs' = songs @ Songs response;
                    page' = NextPage response;
                    newPerPage' =
                      (if \<not> fetchUntilEnd
                       then getPerPage total' (wrap64 (wrap64 (page' - 1) * perPage)) perPage
                       else newPerPage);
                    (reqs, res) =
                      GetArtistSongs_loop total' perPage fetchUntilEnd rest page' newPerPage' songs'
                in ((newPerPage, page) # reqs, res)))
      else ([], Some (Inr songs)))"

definition GetArtistSongs ::
  "int \<Rightarrow> (error + ('s, 'a) Response) list \<Rightarrow> (int \<times> int) list \<times> (error + 's list) option" where
  "GetArtistSongs total' pages =
     (let perPage = 50;
          page = 1;
          fetchUntilEnd = (total' = - 1);
          newPerPage =
            (if \<not> fetchUntilEnd
             then getPerPage total' (wrap64 (wrap64 (page - 1) * perPage)) perPage
             else 0)
      in GetArtistSongs_loop total' perPage fetchUntilEnd pages page newPerPage [])"

text \<open>
  The loop of \<open>GetArtistAlbums\<close>, on the results of the successive calls of
  \<open>getArtistAlbumsPage\<close>; every request asks for 50 items.
\<close>

fun GetArtistAlbums_loop ::
  "(error + ('s, 'a) Response) list \<Rightarrow> int \<Rightarrow> 'a list
     \<Rightarrow> (int \<times> int) list \<times> (error + 'a list) option" where
  "GetArtistAlbums_loop [] page albums =
     (if page \<ge> 1 then ([(50, page)], None) else ([], Some (Inr albums)))"
| "GetArtistAlbums_loop (r # rest) page albums =
     (if page \<ge> 1 then
        (case r of
           Inl err \<Rightarrow> ([(50, page)], Some (Inl err))
         | Inr response \<Rightarrow>
             (let page' = NextPage response;
                  albums' = albums @ Albums response;
                  (reqs, res) = GetArtistAlbums_loop rest page' albums'
              in ((50, page) # reqs, res)))
      else ([], Some (Inr albums)))"

definition GetArtistAlbums ::
  "(error + ('s, 'a) Response) list \<Rightarrow> (int \<times> int) list \<times> (error + 'a list) option" where
  "GetArtistAlbums pages = GetArtistAlbums_loop pages 1 []"

text \<open>
  Notions used to state what a bounded fetch does: the items of one page result, and
  the number of pages of at most 50 items that hold \<open>t\<close> items.
\<close>

definition pageSongs :: "error + ('s, 'a) Response \<Rightarrow> 's list" where
  "pageSongs r = (case r of Inl err \<Rightarrow> [] | Inr response \<Rightarrow> Songs response)"

definition pagesNeeded :: "int \<Rightarrow> nat" where
  "pagesNeeded t = nat ((t + 49) div 50)"

text \<open>The next-page value of a page result (0 for a failed request).\<close>

definition cursor :: "error + ('s, 'a) Response \<Rightarrow> int" where
  "cursor r = (case r of Inl err \<Rightarrow> 0 | Inr response \<Rightarrow> NextPage response)"

section \<open>Resilient request executor (genius.go)\<close>

text \<open>
  An \<open>http.Header\<close> maps a canonical key to its values. \<open>Get\<close> returns the first
  value of the key, or the empty string; \<open>Set\<close> replaces the values of the key by one
  value. The keys used by the client (\<open>Retry-After\<close>, \<open>Authorization\<close>,
  \<open>Content-Type\<close>) are in canonical form already.
\<close>

type_synonym Header = "string \<rightharpoonup> string list"

definition Header_Get :: "Header \<Rightarrow> string \<Rightarrow> string" where
  "Header_Get h key = (case h key of None \<Rightarrow> [] | Some [] \<Rightarrow> [] | Some (v # vs) \<Rightarrow> v)"

definition Header_Set :: "Header \<Rightarrow> string \<Rightarrow> string \<Rightarrow> Header" where
  "Header_Set h key v = h(key \<mapsto> [v])"

text \<open>
  The fields of \<open>http.Request\<close> and \<open>http.Response\<close> that \<open>doRequest\<close> uses.
  \<open>Body\<close> is what \<open>io.ReadAll(resp.Body)\<close> returns: an error or the whole body.
\<close>

record Request =
  Method :: string
  URL :: string
  ReqHeader :: Header

record HTTPResponse =
  StatusCode :: int
  Header :: Header
  Body :: "error + string"

text \<open>A \<open>time.Duration\<close> is a number of nanoseconds.\<close>

type_synonym Duration = int

definition Second :: Duration where
  "Second = 1000000000"

definition defaultRetryDuration :: Duration where
  "defaultRetryDuration = wrap64 (Second * 5)"

text \<open>
  \<open>strconv.ParseInt(s, 10, 32)\<close> and the \<open>strconv.ParseUint(s, 10, 32)\<close> it calls.
  The accumulator of \<open>ParseUint\<close> never exceeds \<open>2^32 - 1\<close> here, so its 64-bit
  overflow tests (\<open>n >= cutoff\<close>, \<open>n1 < n\<close>) never fire and are left out. As in Go,
  the range error is returned at the first digit that makes the value too large, before
  the rest of the string is looked at; with a range error \<open>ParseUint\<close> returns the
  largest value, which \<open>ParseInt\<close> then rejects.
\<close>

datatype NumError = ErrSyntax | ErrRange

fun ParseUint_loop :: "nat \<Rightarrow> string \<Rightarrow> NumError + nat" where
  "ParseUint_loop n [] = Inr n"
| "ParseUint_loop n (c # cs) =
     (if 48 \<le> (of_char c :: nat) \<and> (of_char c :: nat) \<le> 57 then
        (let d = (of_char c :: nat) - 48;
             n1 = n * 10 + d
         in if n1 > 2 ^ 32 - 1 then Inl ErrRange else ParseUint_loop n1 cs)
      else Inl ErrSyntax)"

definition ParseUint :: "string \<Rightarrow> NumError + nat" where
  "ParseUint s = (if s = [] then Inl ErrSyntax else ParseUint_loop 0 s)"

definition ParseInt :: "string \<Rightarrow> NumError + int" where
  "ParseInt s =
     (if s = [] then Inl ErrSyntax
      else
        (let neg = (hd s = CHR ''-'');
             s' = (if hd s = CHR ''+'' \<or> hd s = CHR ''-'' then tl s else s);
             cutoff = 2 ^ 31
         in case ParseUint s' of
              Inl ErrSyntax \<Rightarrow> Inl ErrSyntax
            | Inl ErrRange \<Rightarrow> Inl ErrRange
            | Inr un \<Rightarrow>
                if \<not> neg \<and> un \<ge> cutoff then Inl ErrRange
                else if neg \<and> un > cutoff then Inl ErrRange
                else Inr (if neg then - int un else int un)))"

definition retryDuration :: "HTTPResponse \<Rightarrow> Duration" where
  "retryDuration resp =
     (let raw = Header_Get (Header resp) ''Retry-After''
      in if raw = [] then defaultRetryDuration
         else case ParseInt raw of
                Inl err \<Rightarrow> defaultRetryDuration
              | Inr seconds \<Rightarrow> wrap64 (seconds * Second))"

text \<open>
  What \<open>doRequest\<close> does to the outside: a call of \<open>c.client.Do\<close> with a request,
  or a \<open>time.Sleep\<close>.
\<close>

datatype event = Do Request | Sleep Duration

text \<open>
  The loop of \<open>doRequest\<close>. The results of the successive calls of \<open>c.client.Do\<close>
  (a transport error or a response) are given as a list, consumed one per iteration. The
  function returns the events in order and the value returned by the Go function, or
  \<open>None\<close> when the loop is waiting for an attempt after the last given result.
\<close>

fun doRequest_loop ::
  "Request \<Rightarrow> (error + HTTPResponse) list \<Rightarrow> event list \<times> (error + string) option" where
  "doRequest_loop req [] = ([Do req], None)"
| "doRequest_loop req (a # rest) =
     (case a of
        Inl err \<Rightarrow> ([Do req], Some (Inl err))
      | Inr resp \<Rightarrow>
          if StatusCode resp = 429 \<or> StatusCode resp = 1015 then
            (let (evs, res) = doRequest_loop req rest
             in (Do req # Sleep (retryDuration resp) # evs, res))
          else
            (case Body resp of
               Inl err \<Rightarrow> ([Do req], Some (Inl err))
             | Inr body \<Rightarrow>
                 if StatusCode resp \<noteq> 200 then ([Do req], Some (Inl (Errorf body)))
                 else ([Do req], Some (Inr body))))"

definition doRequest ::
  "string \<Rightarrow> Request \<Rightarrow> (error + HTTPResponse) list \<Rightarrow> event list \<times> (error + string) option" where
  "doRequest AccessToken req attempts =
     (let h = Header_Set (ReqHeader req) ''Authorization'' (''Bearer '' @ AccessToken);
          h' = Header_Set h ''Content-Type'' ''application/json''
      in doRequest_loop (req\<lparr>ReqHeader := h'\<rparr>) attempts)"


text \<open>
  The words of the specification, for comparison with the code. A rate-limited attempt
  is a response with status 429 or 1015. A header value is an integer when it is an
  optional sign followed by at least one decimal digit.
\<close>

definition throttled :: "error + HTTPResponse \<Rightarrow> bool" where
  "throttled a =
     (case a of Inl err \<Rightarrow> False | Inr resp \<Rightarrow> StatusCode resp = 429 \<or> StatusCode resp = 1015)"

definition is_digit :: "char \<Rightarrow> bool" where
  "is_digit c = (48 \<le> (of_char c :: nat) \<and> (of_char c :: nat) \<le> 57)"

definition decimal_step :: "nat \<Rightarrow> char \<Rightarrow> nat" where
  "decimal_step n c = n * 10 + ((of_char c :: nat) - 48)"

definition decimal_value :: "string \<Rightarrow> nat" where
  "decimal_value ds = foldl decimal_step 0 ds"

definition decimal_integer :: "string \<Rightarrow> int option" where
  "decimal_integer s =
     (case s of
        [] \<Rightarrow> None
      | c # cs \<Rightarrow>
          if c = CHR ''+'' then
            (if cs \<noteq> [] \<and> list_all is_digit cs then Some (int (decimal_value cs)) else None)
          else if c = CHR ''-'' then
            (if cs \<noteq> [] \<and> list_all is_digit cs then Some (- int (decimal_value cs)) else None)
          else if list_all is_digit s then Some (int (decimal_value s)) else None)"

fun waits :: "event list \<Rightarrow> Duration list" where
  "waits [] = []"
| "waits (Do req # evs) = waits evs"
| "waits (Sleep d # evs) = d # waits evs"

fun requests :: "event list \<Rightarrow> Request list" where
  "requests [] = []"
| "requests (Do req # evs) = req # requests evs"
| "requests (Sleep d # evs) = requests evs"

text \<open>Example responses and an example request, for the concrete instances below.\<close>

definition resp_429_retry_2 :: HTTPResponse where
  "resp_429_retry_2 =
     \<lparr>StatusCode = 429, Header = [''Retry-After'' \<mapsto> [''2'']], Body = Inr ''slow down''\<rparr>"

definition resp_1015_no_hint :: HTTPResponse where
  "resp_1015_no_hint = \<lparr>StatusCode = 1015, Header = Map.empty, Body = Inr ''blocked''\<rparr>"

definition resp_500 :: HTTPResponse where
  "resp_500 = \<lparr>StatusCode = 500, Header = Map.empty, Body = Inr ''boom''\<rparr>"

definition resp_200 :: HTTPResponse where
  "resp_200 = \<lparr>StatusCode = 200, Header = Map.empty, Body = Inr ''{}''\<rparr>"

definition example_request :: Request where
  "example_request = \<lparr>Method = ''GET'', URL = ''/songs/1'', ReqHeader = Map.empty\<rparr>"

section \<open>Text extractor (extractor code in README.md, GetLyrics in genius.go)\<close>

text \<open>
  The markup tree of \<open>golang.org/x/net/html\<close>. A node has a type, the atom of its
  tag (\<open>Atom_None\<close>, Go's zero, for a node that is not an element or whose tag has no
  atom), its data (the tag name of an element, the payload of a text node), its
  attributes and its children in order. \<open>FirstChild\<close> is nil when the list of children
  is empty; \<open>NextSibling\<close> is the next element of the parent's list.
\<close>

datatype NodeType =
  ErrorNode | TextNode | DocumentNode | ElementNode | CommentNode | DoctypeNode

datatype Atom =
  Atom_None | Atom_A | Atom_Body | Atom_Br | Atom_Div | Atom_Head | Atom_Html | Atom_P
  | Atom_Section | Atom_Span

datatype Attribute = Attribute (Namespace: string) (Key: string) (Val: string)

datatype Node =
  Node (Type: NodeType) (DataAtom: Atom) (Data: string) (Attr: "Attribute list")
    (Children: "Node list")

text \<open>
  The mutable fields of the \<open>Extractor\<close> (\<open>text'\<close> is its field \<open>text\<close>). \<open>node\<close> holds the located container as
  it is after the removals of \<open>findDivLyrics\<close>: the walk never enters a node that
  \<open>findDivLyrics\<close> has changed, and the second pass reads the tree through
  \<open>e.node\<close> only, so the changed subtree is kept here and the document is left as
  parsed.
\<close>

record Extractor =
  root :: "Node option"
  node :: "Node option"
  text' :: string

definition NewExtractor :: Extractor where
  "NewExtractor = \<lparr>root = None, node = None, text' = []\<rparr>"

text \<open>
  \<open>strings.Contains\<close>, \<open>strings.HasSuffix\<close> and \<open>strings.CutSuffix\<close> on byte
  strings.
\<close>

fun Contains :: "string \<Rightarrow> string \<Rightarrow> bool" where
  "Contains [] substr = (substr = [])"
| "Contains (c # s) substr = (take (length substr) (c # s) = substr \<or> Contains s substr)"

definition HasSuffix :: "string \<Rightarrow> string \<Rightarrow> bool" where
  "HasSuffix s suffix' =
     (length s \<ge> length suffix' \<and> drop (length s - length suffix') s = suffix')"

definition CutSuffix :: "string \<Rightarrow> string \<Rightarrow> string \<times> bool" where
  "CutSuffix s suffix' =
     (if \<not> HasSuffix s suffix' then (s, False)
      else (take (length s - length suffix') s, True))"

text \<open>
  \<open>strings.TrimSpace\<close> removes, from the left and then from the right, every code
  point that \<open>unicode.IsSpace\<close> accepts. On the bytes of the string these are the
  six ASCII characters and the UTF-8 encodings of U+0085, U+00A0, U+1680, U+2000 to
  U+200A, U+2028, U+2029, U+202F, U+205F and U+3000; Go decodes no other byte sequence
  to one of these code points, forwards or backwards.
\<close>

definition spaceEncodings :: "string list" where
  "spaceEncodings =
     [[CHR 0x09], [CHR 0x0A], [CHR 0x0B], [CHR 0x0C], [CHR 0x0D], [CHR 0x20],
      [CHR 0xC2, CHR 0x85], [CHR 0xC2, CHR 0xA0],
      [CHR 0xE1, CHR 0x9A, CHR 0x80],
      [CHR 0xE2, CHR 0x80, CHR 0x80], [CHR 0xE2, CHR 0x80, CHR 0x81],
      [CHR 0xE2, CHR 0x80, CHR 0x82], [CHR 0xE2, CHR 0x80, CHR 0x83],
      [CHR 0xE2, CHR 0x80, CHR 0x84], [CHR 0xE2, CHR 0x80, CHR 0x85],
      [CHR 0xE2, CHR 0x80, CHR 0x86], [CHR 0xE2, CHR 0x80, CHR 0x87],
      [CHR 0xE2, CHR 0x80, CHR 0x88], [CHR 0xE2, CHR 0x80, CHR 0x89],
      [CHR 0xE2, CHR 0x80, CHR 0x8A],
      [CHR 0xE2, CHR 0x80, CHR 0xA8], [CHR 0xE2, CHR 0x80, CHR 0xA9],
      [CHR 0xE2, CHR 0x80, CHR 0xAF],
      [CHR 0xE2, CHR 0x81, CHR 0x9F],
      [CHR 0xE3, CHR 0x80, CHR 0x80]]"

fun spaceWidth :: "string list \<Rightarrow> string \<Rightarrow> nat" where
  "spaceWidth [] s = 0"
| "spaceWidth (p # ps) s =
     (if p \<noteq> [] \<and> take (length p) s = p then length p else spaceWidth ps s)"

function trimPrefix :: "string list \<Rightarrow> string \<Rightarrow> string" where
  "trimPrefix ps s =
     (if spaceWidth ps s = 0 then s else trimPrefix ps (drop (spaceWidth ps s) s))"
  by pat_completeness auto
termination
proof (relation "measure (\<lambda>(ps, s). length s)")
  show "wf (measure (\<lambda>(ps, s). length s))" by simp
next
  fix ps :: "string list" and s :: string
  assume "spaceWidth ps s \<noteq> 0"
  then have "length (drop (spaceWidth ps s) s) < length s"
  proof (induction ps)
    case Nil
    then show ?case by simp
  next
    case (Cons p ps)
    show ?case
    proof (cases "p \<noteq> [] \<and> take (length p) s = p")
      case True
      then have "s \<noteq> []" by auto
      with True show ?thesis by (cases p) auto
    next
      case False
      with Cons show ?thesis by auto
    qed
  qed
  then show "((ps, drop (spaceWidth ps s) s), (ps, s)) \<in> measure (\<lambda>(ps, s). length s)" by simp
qed

declare trimPrefix.simps [simp del]

definition TrimSpace :: "string \<Rightarrow> string" where
  "TrimSpace s =
     rev (trimPrefix (map rev spaceEncodings) (rev (trimPrefix spaceEncodings s)))"

text \<open>
  The body of \<open>findDivLyrics\<close> for a node that carries the id. Each of its two loops
  ranges over the attributes of the child that is first (last) when the loop starts,
  and at every attribute whose value contains the marker removes the child that is
  first (last) at that moment. \<open>node.FirstChild.Attr\<close> and \<open>node.LastChild.Attr\<close>
  dereference nil when there is no child, and so does \<open>RemoveChild(nil)\<close>.
\<close>

fun removeFirstChildren :: "Attribute list \<Rightarrow> Node list \<Rightarrow> panic + Node list" where
  "removeFirstChildren [] children = Inr children"
| "removeFirstChildren (childAttr # attrs) children =
     (if Contains (Val childAttr) ''LyricsHeader'' then
        (case children of
           [] \<Rightarrow> Inl NilPointerDereference
         | c # cs \<Rightarrow> removeFirstChildren attrs cs)
      else removeFirstChildren attrs children)"

fun removeLastChildren :: "Attribute list \<Rightarrow> Node list \<Rightarrow> panic + Node list" where
  "removeLastChildren [] children = Inr children"
| "removeLastChildren (lastAttr # attrs) children =
     (if Contains (Val lastAttr) ''Footer'' then
        (if children = [] then Inl NilPointerDereference
         else removeLastChildren attrs (butlast children))
      else removeLastChildren attrs children)"

definition stripBoilerplate :: "Node \<Rightarrow> panic + Node" where
  "stripBoilerplate n =
     (case Children n of
        [] \<Rightarrow> Inl NilPointerDereference
      | firstChild # others \<Rightarrow>
          (case removeFirstChildren (Attr firstChild) (firstChild # others) of
             Inl p \<Rightarrow> Inl p
           | Inr children1 \<Rightarrow>
               if children1 = [] then Inl NilPointerDereference
               else
                 (case removeLastChildren (Attr (last children1)) children1 of
                    Inl p \<Rightarrow> Inl p
                  | Inr children2 \<Rightarrow>
                      Inr (Node (Type n) (DataAtom n) (Data n) (Attr n) children2))))"

text \<open>
  A \<open>visitFunc\<close> is a method of the extractor: it reads a node, may change the
  extractor, and tells the walk whether to go on into the children.
\<close>

type_synonym visitFunc = "Node \<Rightarrow> Extractor \<Rightarrow> panic + (bool \<times> Extractor)"

definition htmlToText :: visitFunc where
  "htmlToText n e =
     Inr (True, if Type n = TextNode then e\<lparr>text' := text' e @ Data n @ [CHR 0x0A]\<rparr> else e)"

fun findDivLyrics_attrs :: "Node \<Rightarrow> Attribute list \<Rightarrow> Extractor \<Rightarrow> panic + (bool \<times> Extractor)" where
  "findDivLyrics_attrs n [] e = Inr (True, e)"
| "findDivLyrics_attrs n (attr # attrs) e =
     (if Key attr = ''id'' \<and> Val attr = ''lyrics-root'' then
        (case stripBoilerplate n of
           Inl p \<Rightarrow> Inl p
         | Inr n' \<Rightarrow> Inr (False, e\<lparr>node := Some n'\<rparr>))
      else findDivLyrics_attrs n attrs e)"

definition findDivLyrics :: visitFunc where
  "findDivLyrics n e =
     (if DataAtom n \<noteq> Atom_Div then Inr (True, e)
      else findDivLyrics_attrs n (Attr n) e)"

fun walk :: "visitFunc \<Rightarrow> Node \<Rightarrow> Extractor \<Rightarrow> panic + Extractor"
  and walk_children :: "visitFunc \<Rightarrow> Node list \<Rightarrow> Extractor \<Rightarrow> panic + Extractor" where
  "walk fn (Node ty atom d attrs children) e =
     (if ty = CommentNode \<or> ty = DoctypeNode \<or> ty = ErrorNode then Inr e
      else
        (case fn (Node ty atom d attrs children) e of
           Inl p \<Rightarrow> Inl p
         | Inr (continue, e') \<Rightarrow>
             if \<not> continue then Inr e' else walk_children fn children e'))"
| "walk_children fn [] e = Inr e"
| "walk_children fn (child # siblings) e =
     (case walk fn child e of
        Inl p \<Rightarrow> Inl p
      | Inr e' \<Rightarrow> walk_children fn siblings e')"

text \<open>
  \<open>Extract\<close>, given what \<open>html.Parse\<close> returned for the reader. When no container
  was located \<open>e.node\<close> is nil, and the second \<open>walk\<close> dereferences it at once.
  The result is a panic, or the pair that the Go function returns.
\<close>

definition Extract :: "error + Node \<Rightarrow> panic + (error + string)" where
  "Extract parsed =
     (case parsed of
        Inl err \<Rightarrow> Inr (Inl err)
      | Inr r \<Rightarrow>
          (let e = NewExtractor\<lparr>root := Some r\<rparr>
           in case walk findDivLyrics r e of
                Inl p \<Rightarrow> Inl p
              | Inr e1 \<Rightarrow>
                  (case node e1 of
                     None \<Rightarrow> Inl NilPointerDereference
                   | Some n \<Rightarrow>
                       (case walk htmlToText n e1 of
                          Inl p \<Rightarrow> Inl p
                        | Inr e2 \<Rightarrow> Inr (Inr (text' e2))))))"

text \<open>
  \<open>GetLyrics\<close>, given the HTML parser and what fetching the page gave: an error (of
  building the request, of the transport or of reading the body) or the bytes of the
  body.
\<close>

definition GetLyrics :: "(string \<Rightarrow> error + Node) \<Rightarrow> error + string \<Rightarrow> panic + (error + string)" where
  "GetLyrics parse fetched =
     (case fetched of
        Inl err \<Rightarrow> Inr (Inl err)
      | Inr bodyBytes \<Rightarrow>
          (case Extract (parse bodyBytes) of
             Inl p \<Rightarrow> Inl p
           | Inr (Inl extractErr) \<Rightarrow> Inr (Inl extractErr)
           | Inr (Inr lyrics) \<Rightarrow>
               (let lyrics1 = TrimSpace lyrics
                in if HasSuffix lyrics1 ''Embed''
                   then Inr (Inr (fst (CutSuffix lyrics1 ''Embed'')))
                   else Inr (Inr lyrics1))))"

text \<open>
  The words of the specification, for comparison with the code: the nodes of a subtree
  in document order (depth first, a node before its children); the test for the id;
  the text payloads of the text nodes of a subtree; the children left after removing a
  first child marked as header and a last child marked as footer.
\<close>

fun subtree_nodes :: "Node \<Rightarrow> Node list" where
  "subtree_nodes (Node ty atom d attrs children) =
     Node ty atom d attrs children # concat (map subtree_nodes children)"

definition is_lyrics_root :: "Node \<Rightarrow> bool" where
  "is_lyrics_root n = list_ex (\<lambda>attr. Key attr = ''id'' \<and> Val attr = ''lyrics-root'') (Attr n)"

definition text_payloads :: "Node \<Rightarrow> string list" where
  "text_payloads n = map Data (filter (\<lambda>m. Type m = TextNode) (subtree_nodes n))"

definition lines_of :: "string list \<Rightarrow> string" where
  "lines_of payloads = concat (map (\<lambda>t. t @ [CHR 0x0A]) payloads)"

definition marked :: "string \<Rightarrow> Node \<Rightarrow> bool" where
  "marked marker n = list_ex (\<lambda>attr. Contains (Val attr) marker) (Attr n)"

definition without_header :: "Node list \<Rightarrow> Node list" where
  "without_header children =
     (if children \<noteq> [] \<and> marked ''LyricsHeader'' (hd children) then tl children else children)"

definition without_footer :: "Node list \<Rightarrow> Node list" where
  "without_footer children =
     (if children \<noteq> [] \<and> marked ''Footer'' (last children) then butlast children else children)"

definition stripped :: "Node \<Rightarrow> Node" where
  "stripped n =
     Node (Type n) (DataAtom n) (Data n) (Attr n) (without_footer (without_header (Children n)))"

text \<open>
  The matching elements that the locate pass encounters, in the order of the walk:
  comment, doctype and error nodes are skipped, and the walk does not descend into a
  \<open>div\<close> that carries the id.
\<close>

fun located :: "Node \<Rightarrow> Node list" where
  "located (Node ty atom d attrs children) =
     (if ty = CommentNode \<or> ty = DoctypeNode \<or> ty = ErrorNode then []
      else if atom = Atom_Div \<and> is_lyrics_root (Node ty atom d attrs children)
      then [Node ty atom d attrs children]
      else concat (map located children))"

text \<open>
  A property of every tree that \<open>html.Parse\<close> builds: comment, doctype and error
  nodes have no children.
\<close>

definition parsed_shape :: "Node \<Rightarrow> bool" where
  "parsed_shape n =
     list_all (\<lambda>m. Type m = CommentNode \<or> Type m = DoctypeNode \<or> Type m = ErrorNode
                 \<longrightarrow> Children m = [])
       (subtree_nodes n)"

text \<open>Example documents.\<close>

definition elem :: "Atom \<Rightarrow> string \<Rightarrow> (string \<times> string) list \<Rightarrow> Node list \<Rightarrow> Node" where
  "elem atom tag attrs children =
     Node ElementNode atom tag (map (\<lambda>(k, v). Attribute [] k v) attrs) children"

definition text_node :: "string \<Rightarrow> Node" where
  "text_node s = Node TextNode Atom_None s [] []"

definition document :: "Node list \<Rightarrow> Node" where
  "document body =
     Node DocumentNode Atom_None [] []
       [elem Atom_Html ''html'' [] [elem Atom_Head ''head'' [] [], elem Atom_Body ''body'' [] body]]"

definition lyrics_container :: Node where
  "lyrics_container =
     elem Atom_Div ''div'' [(''id'', ''lyrics-root'')]
       [elem Atom_Div ''div'' [(''class'', ''LyricsHeader__Container'')] [text_node ''Title''],
        elem Atom_Div ''div'' [(''class'', ''Lyrics__Container'')]
          [text_node ''first line'', elem Atom_Br ''br'' [] [], text_node ''second line''],
        elem Atom_Div ''div'' [(''class'', ''LyricsFooter__Container'')] [text_node ''Credits'']]"

definition page_with_boilerplate :: Node where
  "page_with_boilerplate = document [lyrics_container]"

definition page_two_containers :: Node where
  "page_two_containers =
     document
       [elem Atom_Div ''div'' [(''id'', ''lyrics-root'')] [text_node ''old''],
        elem Atom_P ''p'' [] [elem Atom_Div ''div'' [(''id'', ''lyrics-root'')] [text_node ''new'']]]"

definition page_div_then_span :: Node where
  "page_div_then_span =
     document
       [elem Atom_Div ''div'' [(''id'', ''lyrics-root'')] [text_node ''old''],
        elem Atom_Span ''span'' [(''id'', ''lyrics-root'')] [text_node ''new'']]"

definition page_span_container :: Node where
  "page_span_container =
     document [elem Atom_Span ''span'' [(''id'', ''lyrics-root'')] [text_node ''line'']]"

definition page_no_container :: Node where
  "page_no_container = document [elem Atom_P ''p'' [] [text_node ''hello'']]"

definition page_embed :: Node where
  "page_embed =
     document [elem Atom_Div ''div'' [(''id'', ''lyrics-root'')] [text_node ''la la'', text_node ''Embed'']]"

definition marker_count :: "string \<Rightarrow> Node \<Rightarrow> nat" where
  "marker_count marker n = length (filter (\<lambda>attr. Contains (Val attr) marker) (Attr n))"

text \<open>
  A container on which the two removals of \<open>findDivLyrics\<close> do what the
  specification says: it has a child, its first child has at most one attribute value
  containing \<open>LyricsHeader\<close>, a child is left once that child is removed if it is so
  marked, and the last child then has at most one attribute value containing
  \<open>Footer\<close>.
\<close>

definition strippable :: "Node \<Rightarrow> bool" where
  "strippable m =
     (Children m \<noteq> []
      \<and> marker_count ''LyricsHeader'' (hd (Children m)) \<le> 1
      \<and> without_header (Children m) \<noteq> []
      \<and> marker_count ''Footer'' (last (without_header (Children m))) \<le> 1)"

text \<open>
  The locate pass, said on the list of the matches it encounters: each match in turn
  is stripped and becomes \<open>e.node\<close>, replacing the one before; a panic of the
  stripping ends the pass.
\<close>

fun locate_all :: "Node list \<Rightarrow> Extractor \<Rightarrow> panic + Extractor" where
  "locate_all [] e = Inr e"
| "locate_all (m # ms) e =
     (case stripBoilerplate m of
        Inl p \<Rightarrow> Inl p
      | Inr m' \<Rightarrow> locate_all ms (e\<lparr>node := Some m'\<rparr>))"

text \<open>The text payloads that the second pass reaches, skipped nodes left out.\<close>

fun visible_texts :: "Node \<Rightarrow> string list" where
  "visible_texts (Node ty atom d attrs children) =
     (if ty = CommentNode \<or> ty = DoctypeNode \<or> ty = ErrorNode then []
      else (if ty = TextNode then [d] else []) @ concat (map visible_texts children))"

section \<open>Properties of the paginator\<close>

lemma wrap64_id: "- (2 ^ 63) \<le> x \<Longrightarrow> x < 2 ^ 63 \<Longrightarrow> wrap64 x = x"
  unfolding wrap64_def by (simp add: mod_pos_pos_trivial)

lemma getPerPage_seq:
  assumes "0 \<le> t" "t + 50 < 2 ^ 63" "1 \<le> p" "50 * (p - 1) \<le> t + 49"
  shows "getPerPage t (wrap64 (wrap64 (p - 1) * 50)) 50 = min 50 (t - 50 * (p - 1))"
proof -
  have a: "wrap64 (p - 1) = p - 1" using assms by (intro wrap64_id) auto
  have b: "wrap64 ((p - 1) * 50) = (p - 1) * 50" using assms by (intro wrap64_id) auto
  have c: "wrap64 (t - (p - 1) * 50) = t - (p - 1) * 50" using assms by (intro wrap64_id) auto
  show ?thesis unfolding getPerPage_def a b c Let_def by (simp add: min_def algebra_simps)
qed

lemma pagesNeeded_0: "t \<le> 0 \<Longrightarrow> pagesNeeded t = 0"
proof -
  assume "t \<le> 0"
  then have "(t + 49) div 50 \<le> 49 div (50::int)" by (intro zdiv_mono1) simp_all
  then have "(t + 49) div 50 \<le> 0" by simp
  then show ?thesis unfolding pagesNeeded_def by (simp only: nat_le_0)
qed

lemma pagesNeeded_Suc: "0 < t \<Longrightarrow> pagesNeeded t = Suc (pagesNeeded (t - 50))"
proof -
  assume pos: "0 < t"
  have "(t + 49) div 50 = ((t - 50 + 49) + 50) div 50" by simp
  also have "\<dots> = (t - 50 + 49) div 50 + 1" by (simp only: div_add_self2)
  finally have a: "(t + 49) div 50 = (t - 50 + 49) div 50 + 1" .
  have "0 \<le> t - 50 + 49" using pos by simp
  then have b: "0 \<le> (t - 50 + 49) div 50" by (simp only: pos_imp_zdiv_nonneg_iff) 
  show ?thesis unfolding pagesNeeded_def a using b by (simp only: nat_add_distrib Suc_eq_plus1 nat_1 zero_le_one)
qed

lemma pagesNeeded_pos: "pagesNeeded x = 0 \<Longrightarrow> x \<le> 0"
  using pagesNeeded_Suc[of x] by (cases "0 < x") simp_all

lemma loop_seq:
  assumes "0 \<le> t" "t + 50 < 2 ^ 63"
  shows "1 \<le> p \<Longrightarrow> 50 * (p - 1) \<le> t + 49 \<Longrightarrow>
     \<forall>i<length ps. \<exists>r. ps ! i = Inr r \<and> NextPage r = p + int i + 1 \<Longrightarrow>
     pagesNeeded (t - 50 * (p - 1)) \<le> length ps \<Longrightarrow>
     GetArtistSongs_loop t 50 False ps p (getPerPage t (wrap64 (wrap64 (p - 1) * 50)) 50) acc =
       (map (\<lambda>i. (min 50 (t - 50 * (p - 1 + int i)), p + int i)) [0..<pagesNeeded (t - 50 * (p - 1))],
        Some (Inr (acc @ concat (map pageSongs (take (pagesNeeded (t - 50 * (p - 1))) ps)))))"
proof (induction ps arbitrary: p acc)
  case Nil
  then have "pagesNeeded (t - 50 * (p - 1)) = 0" by simp
  moreover from this have "t - 50 * (p - 1) \<le> 0" by (rule pagesNeeded_pos)
  ultimately show ?case using Nil assms by (simp add: getPerPage_seq)
next
  case (Cons r rest)
  show ?case
  proof (cases "t - 50 * (p - 1) \<le> 0")
    case True
    then show ?thesis using Cons.prems assms by (simp add: getPerPage_seq pagesNeeded_0)
  next
    case False
    then have pos: "0 < t - 50 * (p - 1)" by simp
    from Cons.prems(3) obtain resp where r: "r = Inr resp" and np: "NextPage resp = p + 1"
      by fastforce
    have n: "pagesNeeded (t - 50 * (p - 1)) = Suc (pagesNeeded (t - 50 * (p + 1 - 1)))"
      using pagesNeeded_Suc[OF pos] by (simp add: algebra_simps)
    have p1: "1 \<le> p + 1" using Cons.prems by simp
    have p2: "50 * (p + 1 - 1) \<le> t + 49" using pos by simp
    have p3: "\<forall>i<length rest. \<exists>ra. rest ! i = Inr ra \<and> NextPage ra = p + 1 + int i + 1"
    proof (intro allI impI)
      fix i assume "i < length rest"
      then have "Suc i < length (r # rest)" by simp
      with Cons.prems(3) obtain ra where "(r # rest) ! Suc i = Inr ra \<and> NextPage ra = p + int (Suc i) + 1"
        by blast
      then show "\<exists>ra. rest ! i = Inr ra \<and> NextPage ra = p + 1 + int i + 1" by auto
    qed
    have p4: "pagesNeeded (t - 50 * (p + 1 - 1)) \<le> length rest" using Cons.prems(4) n by simp
    note IH = Cons.IH[OF p1 p2 p3 p4]
    have m: "map (\<lambda>i. (min 50 (t - 50 * (p - 1 + int i)), p + int i)) [0..<Suc k] =
          (min 50 (t - 50 * (p - 1)), p) # map (\<lambda>i. (min 50 (t - 50 * (p + 1 - 1 + int i)), p + 1 + int i)) [0..<k]" for k
      unfolding upt_conv_Cons[OF zero_less_Suc] map_Suc_upt[symmetric] list.map map_map
      by (simp add: comp_def algebra_simps del: upt_Suc)
    have g: "getPerPage t (wrap64 (wrap64 (p - 1) * 50)) 50 = min 50 (t - 50 * (p - 1))"
      using Cons.prems assms by (simp add: getPerPage_seq)
    have gpos: "0 < min 50 (t - 50 * (p - 1))" using pos by simp
    show ?thesis
      unfolding n m g
      using gpos IH by (simp add: r np pageSongs_def del: upt_Suc)
  qed
qed

lemma sizes_shift:
  "map (\<lambda>i. min 50 (t - 50 * int i)) [0..<Suc j] =
     min 50 t # map (\<lambda>i. min 50 (t - 50 - 50 * int i)) [0..<j]"
  unfolding upt_conv_Cons[OF zero_less_Suc] map_Suc_upt[symmetric] list.map map_map
  by (simp add: comp_def algebra_simps del: upt_Suc)

lemma sizes_sum:
  "0 \<le> t \<Longrightarrow> sum_list (map (\<lambda>i. min 50 (t - 50 * int i)) [0..<pagesNeeded t]) = t"
proof (induction "pagesNeeded t" arbitrary: t)
  case 0
  then have "t \<le> 0" by (simp add: pagesNeeded_pos)
  with 0 show ?case by simp
next
  case (Suc k)
  have pos: "0 < t"
  proof (rule ccontr)
    assume "\<not> 0 < t"
    then have "pagesNeeded t = 0" by (simp add: pagesNeeded_0)
    with Suc.hyps(2) show False by simp
  qed
  have n: "pagesNeeded t = Suc (pagesNeeded (t - 50))" using pagesNeeded_Suc[OF pos] .
  show ?case
  proof (cases "t \<le> 50")
    case True
    then have "pagesNeeded (t - 50) = 0" by (simp add: pagesNeeded_0)
    then show ?thesis unfolding n sizes_shift using True pos by simp
  next
    case False
    then have "0 \<le> t - 50" by simp
    moreover have "k = pagesNeeded (t - 50)" using Suc.hyps(2) n by simp
    ultimately have "sum_list (map (\<lambda>i. min 50 (t - 50 - 50 * int i)) [0..<pagesNeeded (t - 50)]) = t - 50"
      using Suc.hyps(1) by blast
    then show ?thesis unfolding n sizes_shift using False by simp
  qed
qed

lemma pagesNeeded_remaining: "i < pagesNeeded t \<Longrightarrow> 0 < t - 50 * int i"
proof (induction i arbitrary: t)
  case 0
  have "0 < t"
  proof (rule ccontr)
    assume "\<not> 0 < t"
    then have "pagesNeeded t = 0" by (simp add: pagesNeeded_0)
    with 0 show False by simp
  qed
  then show ?case by simp
next
  case (Suc i)
  have pos: "0 < t"
  proof (rule ccontr)
    assume "\<not> 0 < t"
    then have "pagesNeeded t = 0" by (simp add: pagesNeeded_0)
    with Suc.prems show False by simp
  qed
  from Suc.prems pagesNeeded_Suc[OF pos] have "i < pagesNeeded (t - 50)" by simp
  from Suc.IH[OF this] show ?case by (simp add: algebra_simps)
qed

lemma take_as_nth: "n \<le> length xs \<Longrightarrow> take n xs = map (\<lambda>i. xs ! i) [0..<n]"
proof -
  assume n: "n \<le> length xs"
  have "take n xs = take n (map (\<lambda>i. xs ! i) [0..<length xs])" by (simp only: map_nth)
  also have "\<dots> = map (\<lambda>i. xs ! i) (take n [0..<length xs])" by (rule take_map)
  also have "take n [0..<length xs] = [0..<n]" using n by simp
  finally show ?thesis .
qed

lemma full_pages_length:
  assumes "0 \<le> t" and "pagesNeeded t \<le> length pages"
    and "\<forall>i<pagesNeeded t. length (pageSongs (pages ! i)) = nat (min 50 (t - 50 * int i))"
  shows "int (length (concat (map pageSongs (take (pagesNeeded t) pages)))) = t"
proof -
  have "map (\<lambda>i. int (length (pageSongs (pages ! i)))) [0..<pagesNeeded t] =
        map (\<lambda>i. min 50 (t - 50 * int i)) [0..<pagesNeeded t]"
  proof (rule map_cong[OF refl])
    fix i assume "i \<in> set [0..<pagesNeeded t]"
    then have i: "i < pagesNeeded t" by simp
    then have "0 < t - 50 * int i" by (rule pagesNeeded_remaining)
    then have "0 \<le> min 50 (t - 50 * int i)" by simp
    with assms(3) i show "int (length (pageSongs (pages ! i))) = min 50 (t - 50 * int i)" by simp
  qed
  then have "sum_list (map (\<lambda>i. int (length (pageSongs (pages ! i)))) [0..<pagesNeeded t]) =
      sum_list (map (\<lambda>i. min 50 (t - 50 * int i)) [0..<pagesNeeded t])"
    by (rule arg_cong)
  then have "sum_list (map (\<lambda>i. int (length (pageSongs (pages ! i)))) [0..<pagesNeeded t]) = t"
    by (simp only: sizes_sum[OF assms(1)])
  moreover have "int (length (concat (map pageSongs (take (pagesNeeded t) pages)))) =
      sum_list (map (\<lambda>i. int (length (pageSongs (pages ! i)))) [0..<pagesNeeded t])"
    unfolding take_as_nth[OF assms(2)] length_concat map_map
    by (simp add: comp_def sum_list_of_nat[symmetric] del: upt_Suc)
  ultimately show ?thesis by simp
qed

lemma getPerPage_in_range:
  assumes "0 \<le> t" "t \<le> 2 ^ 62" "1 \<le> p" "p \<le> 2 ^ 56"
  shows "getPerPage t (wrap64 (wrap64 (p - 1) * 50)) 50 = min 50 (t - 50 * (p - 1))"
proof -
  have a: "wrap64 (p - 1) = p - 1" using assms by (intro wrap64_id) auto
  have b: "wrap64 ((p - 1) * 50) = (p - 1) * 50" using assms by (intro wrap64_id) auto
  have c: "wrap64 (t - (p - 1) * 50) = t - (p - 1) * 50" using assms by (intro wrap64_id) auto
  show ?thesis unfolding getPerPage_def a b c Let_def by (simp add: min_def algebra_simps)
qed

lemma loop_pages_requested:
  "map snd (fst (GetArtistSongs_loop t pp False pages p npp songs)) =
     take (length (fst (GetArtistSongs_loop t pp False pages p npp songs))) (p # map cursor pages)"
proof (induction pages arbitrary: p npp songs)
  case Nil
  show ?case by simp
next
  case (Cons r rest)
  show ?case
  proof (cases r)
    case (Inl err)
    then show ?thesis by simp
  next
    case (Inr response)
    then show ?thesis using Cons.IH
      by (simp add: cursor_def case_prod_beta Let_def)
  qed
qed


lemma loop_stop:
  "\<not> 0 < npp \<Longrightarrow> GetArtistSongs_loop t pp False pages p npp songs = ([], Some (Inr songs))"
  by (cases pages) simp_all

lemma loop_Nil:
  "0 < npp \<Longrightarrow> GetArtistSongs_loop t pp False [] p npp songs = ([(npp, p)], None)"
  by simp

lemma loop_Inl:
  "0 < npp \<Longrightarrow>
   GetArtistSongs_loop t pp False (Inl err # rest) p npp songs = ([(npp, p)], Some (Inl err))"
  by simp

lemma loop_Inr:
  "0 < npp \<Longrightarrow>
   GetArtistSongs_loop t pp False (Inr response # rest) p npp songs =
     ((npp, p) #
        fst (GetArtistSongs_loop t pp False rest (NextPage response)
          (getPerPage t (wrap64 (wrap64 (NextPage response - 1) * pp)) pp)
          (songs @ Songs response)),
      snd (GetArtistSongs_loop t pp False rest (NextPage response)
          (getPerPage t (wrap64 (wrap64 (NextPage response - 1) * pp)) pp)
          (songs @ Songs response)))"
  by (simp add: case_prod_beta Let_def)

lemma loop_result:
  "snd (GetArtistSongs_loop t pp False pages p npp songs) = Some (Inr out) \<Longrightarrow>
   length (fst (GetArtistSongs_loop t pp False pages p npp songs)) \<le> length pages
   \<and> out = songs @ concat (map pageSongs
        (take (length (fst (GetArtistSongs_loop t pp False pages p npp songs))) pages))"
proof (induction pages arbitrary: p npp songs)
  case Nil
  then show ?case by (simp split: if_splits)
next
  case (Cons r rest)
  show ?case
  proof (cases "0 < npp")
    case False
    with Cons.prems show ?thesis by (simp add: loop_stop)
  next
    case True
    show ?thesis
    proof (cases r)
      case (Inl err)
      with Cons.prems True show ?thesis by (simp add: loop_Inl)
    next
      case (Inr response)
      from Cons.prems have "snd (GetArtistSongs_loop t pp False rest (NextPage response)
          (getPerPage t (wrap64 (wrap64 (NextPage response - 1) * pp)) pp)
          (songs @ Songs response)) = Some (Inr out)"
        unfolding Inr loop_Inr[OF True] by simp
      from Cons.IH[OF this] show ?thesis
        unfolding Inr loop_Inr[OF True] by (simp add: pageSongs_def)
    qed
  qed
qed

lemma loop_sizes:
  assumes "0 \<le> t" "t \<le> 2 ^ 62"
  shows "\<forall>response. Inr response \<in> set pages \<longrightarrow> 1 \<le> NextPage response \<and> NextPage response \<le> 2 ^ 56 \<Longrightarrow>
    \<forall>(n, q)\<in>set (fst (GetArtistSongs_loop t 50 False pages p (min 50 (t - 50 * (p - 1))) songs)).
       0 < n \<and> n = min 50 (t - 50 * (q - 1))"
proof (induction pages arbitrary: p songs)
  case Nil
  show ?case
  proof (cases "0 < min 50 (t - 50 * (p - 1))")
    case True
    show ?thesis unfolding loop_Nil[OF True] using True by simp
  next
    case False
    show ?thesis unfolding loop_stop[OF False] using False by simp
  qed
next
  case (Cons r rest)
  show ?case
  proof (cases "0 < min 50 (t - 50 * (p - 1))")
    case False
    show ?thesis unfolding loop_stop[OF False] using False by simp
  next
    case True
    show ?thesis
    proof (cases r)
      case (Inl err)
      show ?thesis unfolding Inl loop_Inl[OF True] using True by simp
    next
      case (Inr response)
      with Cons.prems have b: "1 \<le> NextPage response" "NextPage response \<le> 2 ^ 56" by auto
      have rest: "\<forall>response. Inr response \<in> set rest \<longrightarrow> 1 \<le> NextPage response \<and> NextPage response \<le> 2 ^ 56"
        using Cons.prems by auto
      have g: "getPerPage t (wrap64 (wrap64 (NextPage response - 1) * 50)) 50 =
          min 50 (t - 50 * (NextPage response - 1))"
        using assms b by (rule getPerPage_in_range)
      show ?thesis
        unfolding Inr loop_Inr[OF True] g fst_conv
        using Cons.IH[OF rest, of "NextPage response" "songs @ Songs response"] True
        by (simp only: set_simps ball_simps case_prod_conv)
    qed
  qed
qed

lemma loop_end:
  assumes "0 \<le> t" "t \<le> 2 ^ 62"
  shows "\<forall>response. Inr response \<in> set pages \<longrightarrow> 1 \<le> NextPage response \<and> NextPage response \<le> 2 ^ 56 \<Longrightarrow>
    snd (GetArtistSongs_loop t 50 False pages p (min 50 (t - 50 * (p - 1))) songs) = Some (Inr out) \<Longrightarrow>
    t - 50 * ((p # map cursor pages) !
        length (fst (GetArtistSongs_loop t 50 False pages p (min 50 (t - 50 * (p - 1))) songs)) - 1) \<le> 0"
proof (induction pages arbitrary: p songs)
  case Nil
  show ?case
  proof (cases "0 < min 50 (t - 50 * (p - 1))")
    case True
    with Nil.prems(2) show ?thesis unfolding loop_Nil[OF True] by simp
  next
    case False
    show ?thesis unfolding loop_stop[OF False] using False by simp
  qed
next
  case (Cons r rest)
  show ?case
  proof (cases "0 < min 50 (t - 50 * (p - 1))")
    case False
    show ?thesis unfolding loop_stop[OF False] using False by simp
  next
    case True
    show ?thesis
    proof (cases r)
      case (Inl err)
      from Cons.prems(2) have False unfolding Inl loop_Inl[OF True] by simp
      then show ?thesis ..
    next
      case (Inr response)
      with Cons.prems have b: "1 \<le> NextPage response" "NextPage response \<le> 2 ^ 56" by auto
      have rest: "\<forall>response. Inr response \<in> set rest \<longrightarrow> 1 \<le> NextPage response \<and> NextPage response \<le> 2 ^ 56"
        using Cons.prems(1) by auto
      have g: "getPerPage t (wrap64 (wrap64 (NextPage response - 1) * 50)) 50 =
          min 50 (t - 50 * (NextPage response - 1))"
        using assms b by (rule getPerPage_in_range)
      have s: "snd (GetArtistSongs_loop t 50 False rest (NextPage response)
           (min 50 (t - 50 * (NextPage response - 1))) (songs @ Songs response)) = Some (Inr out)"
        using Cons.prems(2) unfolding Inr loop_Inr[OF True] g by simp
      show ?thesis
        unfolding Inr loop_Inr[OF True] g fst_conv
        using Cons.IH[OF rest s] by (simp add: cursor_def)
    qed
  qed
qed

text \<open>
  Claim C4, as amended. Take a bounded fetch with a target \<open>total'\<close> between 0 and
  \<open>2^62\<close>, and a server whose next-page values lie between 1 and \<open>2^56\<close> (the
  64-bit arithmetic then does not overflow); page requests may fail. The first request
  is for page 1 and each later one for the next-page value of the response before it.
  Every request asks for \<open>min 50 (total' - 50 * (page - 1))\<close> items, a positive
  number: the size comes from the page number, not from the number of items received.
  When the fetch returns a list, it holds the items of all requested pages in order,
  and the last next-page value \<open>p\<close> (1 when nothing was requested) has
  \<open>total' - 50 * (p - 1) \<le> 0\<close>. When moreover the server answers the request for
  page \<open>p\<close> with the next page \<open>p + 1\<close>, and answers as many requests as the
  target needs, the requests are for pages 1, 2, ... with sizes
  \<open>min 50 (total' - 50 * i)\<close>, that is the minimum of the ceiling and of the target
  minus what was requested before; the loop ends, returning the items of these pages in
  order, when that remainder is zero; the requested sizes add up to exactly the target;
  and if every page holds as many items as its request asked for, the number of items
  returned is the target.
\<close>

theorem GetArtistSongs_bounded_by_cursor:
  assumes "0 \<le> total'" and "total' \<le> 2 ^ 62"
    and "\<forall>response. Inr response \<in> set pages \<longrightarrow>
           1 \<le> NextPage response \<and> NextPage response \<le> 2 ^ 56"
  shows "map snd (fst (GetArtistSongs total' pages)) =
           take (length (fst (GetArtistSongs total' pages))) (1 # map cursor pages)
    \<and> (\<forall>(n, q)\<in>set (fst (GetArtistSongs total' pages)).
           0 < n \<and> n = min 50 (total' - 50 * (q - 1)))
    \<and> (\<forall>songs. snd (GetArtistSongs total' pages) = Some (Inr songs) \<longrightarrow>
           length (fst (GetArtistSongs total' pages)) \<le> length pages
           \<and> songs = concat (map pageSongs (take (length (fst (GetArtistSongs total' pages))) pages))
           \<and> total' - 50 * ((1 # map cursor pages) ! length (fst (GetArtistSongs total' pages)) - 1) \<le> 0)
    \<and> ((\<forall>i<length pages. \<exists>r. pages ! i = Inr r \<and> NextPage r = int i + 2)
         \<and> pagesNeeded total' \<le> length pages \<longrightarrow>
         GetArtistSongs total' pages =
           (map (\<lambda>i. (min 50 (total' - 50 * int i), int i + 1)) [0..<pagesNeeded total'],
            Some (Inr (concat (map pageSongs (take (pagesNeeded total') pages)))))
         \<and> sum_list (map fst (fst (GetArtistSongs total' pages))) = total'
         \<and> ((\<forall>i<pagesNeeded total'.
                length (pageSongs (pages ! i)) = nat (min 50 (total' - 50 * int i))) \<longrightarrow>
              int (length (concat (map pageSongs (take (pagesNeeded total') pages)))) = total'))"
proof -
  have ne: "total' \<noteq> - 1" using assms(1) by simp
  have first: "getPerPage total' (wrap64 (wrap64 (1 - 1) * 50)) 50 = min 50 (total' - 50 * (1 - 1))"
    using assms(1,2) by (intro getPerPage_in_range) simp_all
  have G: "GetArtistSongs total' pages =
      GetArtistSongs_loop total' 50 False pages 1 (min 50 (total' - 50 * (1 - 1))) []"
    unfolding GetArtistSongs_def Let_def first[symmetric] using ne by simp
  have A: "map snd (fst (GetArtistSongs total' pages)) =
           take (length (fst (GetArtistSongs total' pages))) (1 # map cursor pages)"
    unfolding G by (rule loop_pages_requested)
  have B: "\<forall>(n, q)\<in>set (fst (GetArtistSongs total' pages)).
           0 < n \<and> n = min 50 (total' - 50 * (q - 1))"
    unfolding G using assms(3) by (rule loop_sizes[OF assms(1,2)])
  have C: "\<forall>songs. snd (GetArtistSongs total' pages) = Some (Inr songs) \<longrightarrow>
           length (fst (GetArtistSongs total' pages)) \<le> length pages
           \<and> songs = concat (map pageSongs (take (length (fst (GetArtistSongs total' pages))) pages))
           \<and> total' - 50 * ((1 # map cursor pages) ! length (fst (GetArtistSongs total' pages)) - 1) \<le> 0"
  proof (intro allI impI)
    fix songs
    assume s: "snd (GetArtistSongs total' pages) = Some (Inr songs)"
    from s loop_result[of total' 50 pages 1 "min 50 (total' - 50 * (1 - 1))" "[]" songs]
    have "length (fst (GetArtistSongs total' pages)) \<le> length pages
      \<and> songs = concat (map pageSongs (take (length (fst (GetArtistSongs total' pages))) pages))"
      unfolding G by simp
    moreover from s loop_end[OF assms(1,2,3), of 1 "[]" songs]
    have "total' - 50 * ((1 # map cursor pages) ! length (fst (GetArtistSongs total' pages)) - 1) \<le> 0"
      unfolding G by simp
    ultimately show "length (fst (GetArtistSongs total' pages)) \<le> length pages
           \<and> songs = concat (map pageSongs (take (length (fst (GetArtistSongs total' pages))) pages))
           \<and> total' - 50 * ((1 # map cursor pages) ! length (fst (GetArtistSongs total' pages)) - 1) \<le> 0"
      by blast
  qed
  have D: "GetArtistSongs total' pages =
           (map (\<lambda>i. (min 50 (total' - 50 * int i), int i + 1)) [0..<pagesNeeded total'],
            Some (Inr (concat (map pageSongs (take (pagesNeeded total') pages)))))
         \<and> sum_list (map fst (fst (GetArtistSongs total' pages))) = total'
         \<and> ((\<forall>i<pagesNeeded total'.
                length (pageSongs (pages ! i)) = nat (min 50 (total' - 50 * int i))) \<longrightarrow>
              int (length (concat (map pageSongs (take (pagesNeeded total') pages)))) = total')"
    if seq0: "\<forall>i<length pages. \<exists>r. pages ! i = Inr r \<and> NextPage r = int i + 2"
      and enough: "pagesNeeded total' \<le> length pages"
  proof -
    have small: "total' + 50 < 2 ^ 63" using assms(2) by simp
    have seq: "\<forall>i<length pages. \<exists>r. pages ! i = Inr r \<and> NextPage r = 1 + int i + 1"
      using seq0 by (simp add: algebra_simps)
    have run: "GetArtistSongs total' pages =
           (map (\<lambda>i. (min 50 (total' - 50 * int i), int i + 1)) [0..<pagesNeeded total'],
            Some (Inr (concat (map pageSongs (take (pagesNeeded total') pages)))))"
      unfolding GetArtistSongs_def Let_def
      using loop_seq[OF assms(1) small, of 1 pages "[]"] seq assms(1) enough ne
      by (simp add: add.commute)
    have "map fst (map (\<lambda>i. (min 50 (total' - 50 * int i), int i + 1)) [0..<pagesNeeded total']) =
        map (\<lambda>i. min 50 (total' - 50 * int i)) [0..<pagesNeeded total']"
      by (simp add: comp_def)
    then have "sum_list (map fst (fst (GetArtistSongs total' pages))) = total'"
      unfolding run fst_conv map_map using sizes_sum[OF assms(1)] by (simp add: comp_def)
    moreover have "(\<forall>i<pagesNeeded total'.
                length (pageSongs (pages ! i)) = nat (min 50 (total' - 50 * int i))) \<longrightarrow>
              int (length (concat (map pageSongs (take (pagesNeeded total') pages)))) = total'"
      using full_pages_length[OF assms(1) enough] by blast
    ultimately show ?thesis using run by blast
  qed
  from A B C D show ?thesis by blast
qed

lemma pagesNeeded_125: "pagesNeeded 125 = 3"
  unfolding pagesNeeded_def by simp

text \<open>
  The amended C4 at target 125: the requests are for 50, 50 and 25 items, pages 1, 2
  and 3, and the 125 items the server supplied are returned in order.
\<close>

theorem GetArtistSongs_bounded_by_cursor_witness:
  "GetArtistSongs 125
     [Inr \<lparr>Songs = replicate 50 (1::nat), Albums = ([] :: nat list), NextPage = 2\<rparr>,
      Inr \<lparr>Songs = replicate 50 2, Albums = [], NextPage = 3\<rparr>,
      Inr \<lparr>Songs = replicate 25 3, Albums = [], NextPage = 4\<rparr>] =
   ([(50, 1), (50, 2), (25, 3)],
    Some (Inr (replicate 50 (1::nat) @ replicate 50 2 @ replicate 25 3)))
   \<and> sum_list (map fst (fst (GetArtistSongs 125
     [Inr \<lparr>Songs = replicate 50 (1::nat), Albums = ([] :: nat list), NextPage = 2\<rparr>,
      Inr \<lparr>Songs = replicate 50 2, Albums = [], NextPage = 3\<rparr>,
      Inr \<lparr>Songs = replicate 25 3, Albums = [], NextPage = 4\<rparr>]))) = 125"
proof -
  have three: "i < 3 \<Longrightarrow> i = 0 \<or> i = 1 \<or> i = 2" for i :: nat by arith
  have c: "\<forall>response. Inr response \<in> set
     [Inr \<lparr>Songs = replicate 50 (1::nat), Albums = ([] :: nat list), NextPage = 2\<rparr>,
      Inr \<lparr>Songs = replicate 50 2, Albums = [], NextPage = 3\<rparr>,
      Inr \<lparr>Songs = replicate 25 3, Albums = [], NextPage = 4\<rparr>] \<longrightarrow>
      1 \<le> NextPage response \<and> NextPage response \<le> 2 ^ 56"
    by auto
  have h: "\<forall>i<length
     [Inr \<lparr>Songs = replicate 50 (1::nat), Albums = ([] :: nat list), NextPage = 2\<rparr>,
      Inr \<lparr>Songs = replicate 50 2, Albums = [], NextPage = 3\<rparr>,
      Inr \<lparr>Songs = replicate 25 3, Albums = [], NextPage = 4\<rparr>].
     \<exists>r. [Inr \<lparr>Songs = replicate 50 (1::nat), Albums = ([] :: nat list), NextPage = 2\<rparr>,
      Inr \<lparr>Songs = replicate 50 2, Albums = [], NextPage = 3\<rparr>,
      Inr \<lparr>Songs = replicate 25 3, Albums = [], NextPage = 4\<rparr>] ! i = Inr r
       \<and> NextPage r = int i + 2"
  proof (intro allI impI)
    fix i :: nat
    assume "i < length
     [Inr \<lparr>Songs = replicate 50 (1::nat), Albums = ([] :: nat list), NextPage = 2\<rparr>,
      Inr \<lparr>Songs = replicate 50 2, Albums = [], NextPage = 3\<rparr>,
      Inr \<lparr>Songs = replicate 25 3, Albums = [], NextPage = 4\<rparr>]"
    then have "i < 3" by simp
    then consider "i = 0" | "i = 1" | "i = 2" using three by blast
    then show "\<exists>r. [Inr \<lparr>Songs = replicate 50 (1::nat), Albums = ([] :: nat list), NextPage = 2\<rparr>,
      Inr \<lparr>Songs = replicate 50 2, Albums = [], NextPage = 3\<rparr>,
      Inr \<lparr>Songs = replicate 25 3, Albums = [], NextPage = 4\<rparr>] ! i = Inr r
       \<and> NextPage r = int i + 2"
      by cases simp_all
  qed
  have n: "pagesNeeded 125 \<le> length
     [Inr \<lparr>Songs = replicate 50 (1::nat), Albums = ([] :: nat list), NextPage = 2\<rparr>,
      Inr \<lparr>Songs = replicate 50 2, Albums = [], NextPage = 3\<rparr>,
      Inr \<lparr>Songs = replicate 25 3, Albums = [], NextPage = 4\<rparr>]"
    by (simp add: pagesNeeded_125)
  have up: "[0..<3] = [0, 1, 2]" by (simp add: upt_rec)
  have a: "(0::int) \<le> 125" and b: "(125::int) \<le> 2 ^ 62" by simp_all
  from GetArtistSongs_bounded_by_cursor[OF a b c] h n
  have "GetArtistSongs 125
     [Inr \<lparr>Songs = replicate 50 (1::nat), Albums = ([] :: nat list), NextPage = 2\<rparr>,
      Inr \<lparr>Songs = replicate 50 2, Albums = [], NextPage = 3\<rparr>,
      Inr \<lparr>Songs = replicate 25 3, Albums = [], NextPage = 4\<rparr>] =
     (map (\<lambda>i. (min 50 (125 - 50 * int i), int i + 1)) [0..<pagesNeeded 125],
      Some (Inr (concat (map pageSongs (take (pagesNeeded 125)
     [Inr \<lparr>Songs = replicate 50 (1::nat), Albums = ([] :: nat list), NextPage = 2\<rparr>,
      Inr \<lparr>Songs = replicate 50 2, Albums = [], NextPage = 3\<rparr>,
      Inr \<lparr>Songs = replicate 25 3, Albums = [], NextPage = 4\<rparr>])))))"
    by blast
  then show ?thesis by (simp add: pagesNeeded_125 pageSongs_def up)
qed

text \<open>
  Claim C4 as stated fails: the size of a request is not computed from the number of
  items fetched so far. With target 60, a server that answers page 1 with 20 items and
  next page 2 is asked for 10 items next, not for \<open>min 50 (60 - 20) = 40\<close>.
\<close>

theorem GetArtistSongs_bounded_short_pages_counterexample:
  "GetArtistSongs 60
     [Inr \<lparr>Songs = replicate 20 ''a'', Albums = ([] :: string list), NextPage = 2\<rparr>,
      Inr \<lparr>Songs = replicate 10 ''b'', Albums = [], NextPage = 3\<rparr>] =
   ([(50, 1), (10, 2)], Some (Inr (replicate 20 ''a'' @ replicate 10 ''b'')))
   \<and> (10 :: int) \<noteq> min 50 (60 - int (length (replicate 20 ''a'')))"
  by (simp add: GetArtistSongs_def getPerPage_def wrap64_id)

text \<open>
  Claim C3 at a two-page collection. The unbounded \<open>GetArtistSongs\<close> leaves the
  loop before appending the items of the page whose next-page field is 0, so the items
  of the final page are missing from its result; \<open>GetArtistAlbums\<close>, on the same
  pages, returns the items of both.
\<close>

theorem GetArtistSongs_unbounded_drops_final_page:
  "GetArtistSongs (- 1)
     [Inr \<lparr>Songs = [''a''], Albums = ([] :: string list), NextPage = 2\<rparr>,
      Inr \<lparr>Songs = [''b''], Albums = [], NextPage = 0\<rparr>] =
   ([(0, 1), (0, 2)], Some (Inr [''a'']))
   \<and> GetArtistAlbums
     [Inr \<lparr>Songs = ([] :: string list), Albums = [''a''], NextPage = 2\<rparr>,
      Inr \<lparr>Songs = [], Albums = [''b''], NextPage = 0\<rparr>] =
   ([(50, 1), (50, 2)], Some (Inr [''a'', ''b'']))"
  by (simp add: GetArtistSongs_def GetArtistAlbums_def)

text \<open>
  Claim C8 at target 10, when the server answers page 1 with three items and no next
  page (the collection is exhausted): the bounded loop goes on and requests page 0,
  with 50 items per page, again and again.
\<close>

theorem GetArtistSongs_bounded_requests_page_zero:
  "GetArtistSongs 10
     [Inr \<lparr>Songs = [''a'', ''b'', ''c''], Albums = ([] :: string list), NextPage = 0\<rparr>,
      Inr \<lparr>Songs = [], Albums = [], NextPage = 0\<rparr>] =
   ([(10, 1), (50, 0), (50, 0)], None)"
  by (simp add: GetArtistSongs_def getPerPage_def wrap64_id)

section \<open>Properties of the request executor\<close>

lemma decimal_step_mono: "n \<le> foldl decimal_step n ds"
proof (induction ds arbitrary: n)
  case Nil
  show ?case by simp
next
  case (Cons c cs)
  have "n \<le> decimal_step n c" unfolding decimal_step_def by simp
  also have "\<dots> \<le> foldl decimal_step (decimal_step n c) cs" by (rule Cons.IH)
  finally show ?case by simp
qed

lemma ParseUint_loop_Inr:
  "n \<le> 2 ^ 32 - 1 \<Longrightarrow>
   ParseUint_loop n ds = Inr v \<longleftrightarrow>
     list_all is_digit ds \<and> foldl decimal_step n ds = v \<and> v \<le> 2 ^ 32 - 1"
proof (induction ds arbitrary: n)
  case Nil
  then show ?case by auto
next
  case (Cons c cs)
  show ?case
  proof (cases "is_digit c")
    case False
    then have "ParseUint_loop n (c # cs) = Inl ErrSyntax" by (auto simp: is_digit_def)
    then show ?thesis using False by simp
  next
    case True
    show ?thesis
    proof (cases "decimal_step n c > 2 ^ 32 - 1")
      case over: True
      have "decimal_step n c \<le> foldl decimal_step (decimal_step n c) cs" by (rule decimal_step_mono)
      with over have "\<not> foldl decimal_step (decimal_step n c) cs \<le> 2 ^ 32 - 1" by simp
      moreover have "ParseUint_loop n (c # cs) = Inl ErrRange"
        using True over by (simp add: is_digit_def decimal_step_def Let_def)
      ultimately show ?thesis by auto
    next
      case ok: False
      then have le: "decimal_step n c \<le> 2 ^ 32 - 1" by simp
      have "ParseUint_loop n (c # cs) = ParseUint_loop (decimal_step n c) cs"
        using True ok by (simp add: is_digit_def decimal_step_def Let_def)
      then show ?thesis using Cons.IH[OF le] True by simp
    qed
  qed
qed

lemma ParseUint_Inr:
  "ParseUint s = Inr v \<longleftrightarrow>
     s \<noteq> [] \<and> list_all is_digit s \<and> decimal_value s = v \<and> v \<le> 2 ^ 32 - 1"
  unfolding ParseUint_def decimal_value_def
  using ParseUint_loop_Inr[of 0 s v] by simp

lemma not_digit_sign: "\<not> is_digit CHR ''+''" "\<not> is_digit CHR ''-''"
  by (simp_all add: is_digit_def)

lemma ParseInt_Inr:
  "ParseInt s = Inr v \<longleftrightarrow>
     decimal_integer s = Some v \<and> - (2 ^ 31) \<le> v \<and> v < 2 ^ 31"
proof (cases s)
  case Nil
  then show ?thesis by (simp add: ParseInt_def decimal_integer_def)
next
  case (Cons c cs)
  consider (plus) "c = CHR ''+''" | (minus) "c = CHR ''-''" | (other) "c \<noteq> CHR ''+''" "c \<noteq> CHR ''-''"
    by blast
  then show ?thesis
  proof cases
    case plus
    show ?thesis
    proof (cases "ParseUint cs")
      case (Inl e)
      then have "\<not> (cs \<noteq> [] \<and> list_all is_digit cs \<and> decimal_value cs \<le> 2 ^ 32 - 1)"
        using ParseUint_Inr[of cs "decimal_value cs"] by auto
      then show ?thesis using Inl Cons plus
        by (cases e) (auto simp: ParseInt_def decimal_integer_def)
    next
      case (Inr un)
      then show ?thesis using Cons plus ParseUint_Inr[of cs un]
        by (auto simp: ParseInt_def decimal_integer_def)
    qed
  next
    case minus
    show ?thesis
    proof (cases "ParseUint cs")
      case (Inl e)
      then have "\<not> (cs \<noteq> [] \<and> list_all is_digit cs \<and> decimal_value cs \<le> 2 ^ 32 - 1)"
        using ParseUint_Inr[of cs "decimal_value cs"] by auto
      then show ?thesis using Inl Cons minus
        by (cases e) (auto simp: ParseInt_def decimal_integer_def)
    next
      case (Inr un)
      then show ?thesis using Cons minus ParseUint_Inr[of cs un]
        by (auto simp: ParseInt_def decimal_integer_def)
    qed
  next
    case other
    show ?thesis
    proof (cases "ParseUint s")
      case (Inl e)
      then have "\<not> (list_all is_digit s \<and> decimal_value s \<le> 2 ^ 32 - 1)"
        using ParseUint_Inr[of s "decimal_value s"] Cons by auto
      then show ?thesis using Inl Cons other
        by (cases e) (auto simp: ParseInt_def decimal_integer_def)
    next
      case (Inr un)
      then show ?thesis using Cons other ParseUint_Inr[of s un]
        by (auto simp: ParseInt_def decimal_integer_def)
    qed
  qed
qed

lemma doRequest_loop_throttled:
  "list_all throttled pre \<Longrightarrow>
   doRequest_loop req (pre @ rest) =
     (concat (map (\<lambda>a. [Do req, Sleep (retryDuration (projr a))]) pre) @ fst (doRequest_loop req rest),
      snd (doRequest_loop req rest))"
proof (induction pre)
  case Nil
  show ?case by simp
next
  case (Cons a pre)
  from Cons.prems obtain resp where a: "a = Inr resp"
    and st: "StatusCode resp = 429 \<or> StatusCode resp = 1015"
    by (cases a) (auto simp: throttled_def)
  from Cons.prems have "list_all throttled pre" by simp
  then show ?case using Cons.IH a st by (auto simp: case_prod_beta)
qed

lemma doRequest_loop_final:
  "\<not> throttled a \<Longrightarrow>
   doRequest_loop req (a # rest) =
     ([Do req],
      Some (case a of
              Inl err \<Rightarrow> Inl err
            | Inr resp \<Rightarrow>
                (case Body resp of
                   Inl err \<Rightarrow> Inl err
                 | Inr body \<Rightarrow> if StatusCode resp = 200 then Inr body else Inl (Errorf body))))"
  by (cases a) (auto simp: throttled_def split: sum.splits)

lemma requests_throttled:
  "requests (concat (map (\<lambda>a. [Do req, Sleep (f a)]) pre) @ evs) =
     replicate (length pre) req @ requests evs"
  by (induction pre) simp_all

lemma waits_throttled:
  "waits (concat (map (\<lambda>a. [Do req, Sleep (f a)]) pre) @ evs) = map f pre @ waits evs"
  by (induction pre) simp_all

lemma wrap64_seconds:
  assumes "- (2 ^ 31) \<le> v" "v < 2 ^ 31"
  shows "wrap64 (v * Second) = v * Second"
proof (rule wrap64_id)
  show "- (2 ^ 63) \<le> v * Second" using assms unfolding Second_def by simp
  show "v * Second < 2 ^ 63" using assms unfolding Second_def by simp
qed

lemma defaultRetryDuration_5: "defaultRetryDuration = 5 * Second"
  unfolding defaultRetryDuration_def Second_def by (simp add: wrap64_id)

text \<open>
  Claim C6. While every attempt so far was answered with status 429 or 1015,
  \<open>doRequest\<close> has returned nothing, however many attempts that is. At the first
  attempt that is not rate-limited it returns at once: a transport error is returned as
  it is; a status other than 200 gives the error whose message is the body; status 200
  gives the body (an error of reading the body is returned like a transport error). No
  attempt follows, and every attempt sent the same request, the caller's with the
  \<open>Authorization\<close> and \<open>Content-Type\<close> headers set.
\<close>

theorem doRequest_determined_by_status:
  assumes "list_all throttled pre"
  shows "snd (doRequest AccessToken req pre) = None
    \<and> snd (doRequest AccessToken req (pre @ Inl err # rest)) = Some (Inl err)
    \<and> (StatusCode resp \<noteq> 429 \<and> StatusCode resp \<noteq> 1015 \<and> StatusCode resp \<noteq> 200
           \<and> Body resp = Inr body \<longrightarrow>
         snd (doRequest AccessToken req (pre @ Inr resp # rest)) = Some (Inl (Errorf body)))
    \<and> (StatusCode resp = 200 \<and> Body resp = Inr body \<longrightarrow>
         snd (doRequest AccessToken req (pre @ Inr resp # rest)) = Some (Inr body))
    \<and> (StatusCode resp \<noteq> 429 \<and> StatusCode resp \<noteq> 1015 \<and> Body resp = Inl err \<longrightarrow>
         snd (doRequest AccessToken req (pre @ Inr resp # rest)) = Some (Inl err))
    \<and> (\<not> throttled a \<longrightarrow>
         requests (fst (doRequest AccessToken req (pre @ a # rest))) =
           replicate (Suc (length pre))
             (req\<lparr>ReqHeader :=
                Header_Set (Header_Set (ReqHeader req) ''Authorization'' (''Bearer '' @ AccessToken))
                  ''Content-Type'' ''application/json''\<rparr>))"
proof -
  note pre = doRequest_loop_throttled[OF assms]
  have A: "snd (doRequest AccessToken req pre) = None"
    unfolding doRequest_def Let_def using pre[of _ "[]"] by simp
  have B: "snd (doRequest AccessToken req (pre @ Inl err # rest)) = Some (Inl err)"
    unfolding doRequest_def Let_def pre by simp
  have C: "StatusCode resp \<noteq> 429 \<and> StatusCode resp \<noteq> 1015 \<and> StatusCode resp \<noteq> 200
           \<and> Body resp = Inr body \<longrightarrow>
         snd (doRequest AccessToken req (pre @ Inr resp # rest)) = Some (Inl (Errorf body))"
    unfolding doRequest_def Let_def pre by simp
  have D: "StatusCode resp = 200 \<and> Body resp = Inr body \<longrightarrow>
         snd (doRequest AccessToken req (pre @ Inr resp # rest)) = Some (Inr body)"
    unfolding doRequest_def Let_def pre by simp
  have E: "StatusCode resp \<noteq> 429 \<and> StatusCode resp \<noteq> 1015 \<and> Body resp = Inl err \<longrightarrow>
         snd (doRequest AccessToken req (pre @ Inr resp # rest)) = Some (Inl err)"
    unfolding doRequest_def Let_def pre by simp
  have F: "\<not> throttled a \<longrightarrow>
         requests (fst (doRequest AccessToken req (pre @ a # rest))) =
           replicate (Suc (length pre))
             (req\<lparr>ReqHeader :=
                Header_Set (Header_Set (ReqHeader req) ''Authorization'' (''Bearer '' @ AccessToken))
                  ''Content-Type'' ''application/json''\<rparr>)"
  proof
    assume na: "\<not> throttled a"
    show "requests (fst (doRequest AccessToken req (pre @ a # rest))) =
           replicate (Suc (length pre))
             (req\<lparr>ReqHeader :=
                Header_Set (Header_Set (ReqHeader req) ''Authorization'' (''Bearer '' @ AccessToken))
                  ''Content-Type'' ''application/json''\<rparr>)"
      unfolding doRequest_def Let_def pre doRequest_loop_final[OF na] fst_conv requests_throttled
      by (simp add: replicate_append_same)
  qed
  from A B C D E F show ?thesis by blast
qed

text \<open>
  Claim C7. The duration computed for a rate-limited response is the value of its
  \<open>Retry-After\<close> header, read as a decimal integer of 32 bits, in seconds; it is 5
  seconds when the header is absent or empty, is not a decimal integer, or does not fit
  32 bits. These durations, in the order of the rate-limited responses, are the
  arguments of the calls of \<open>time.Sleep\<close>, one after each such response and before
  the next attempt.
\<close>

theorem retryDuration_from_header:
  "retryDuration resp =
     (case decimal_integer (Header_Get (Header resp) ''Retry-After'') of
        None \<Rightarrow> 5 * Second
      | Some n \<Rightarrow> if - (2 ^ 31) \<le> n \<and> n < 2 ^ 31 then n * Second else 5 * Second)
   \<and> (list_all throttled pre \<and> \<not> throttled a \<longrightarrow>
        fst (doRequest AccessToken req (pre @ a # rest)) =
          concat (map (\<lambda>r. [Do (req\<lparr>ReqHeader :=
                Header_Set (Header_Set (ReqHeader req) ''Authorization'' (''Bearer '' @ AccessToken))
                  ''Content-Type'' ''application/json''\<rparr>), Sleep (retryDuration (projr r))]) pre)
          @ [Do (req\<lparr>ReqHeader :=
                Header_Set (Header_Set (ReqHeader req) ''Authorization'' (''Bearer '' @ AccessToken))
                  ''Content-Type'' ''application/json''\<rparr>)]
        \<and> waits (fst (doRequest AccessToken req (pre @ a # rest))) =
             map (\<lambda>r. retryDuration (projr r)) pre)"
proof -
  define raw where "raw = Header_Get (Header resp) ''Retry-After''"
  have dur: "retryDuration resp =
     (case decimal_integer raw of
        None \<Rightarrow> 5 * Second
      | Some n \<Rightarrow> if - (2 ^ 31) \<le> n \<and> n < 2 ^ 31 then n * Second else 5 * Second)"
  proof (cases "raw = []")
    case True
    then show ?thesis
      unfolding retryDuration_def raw_def[symmetric] Let_def
      by (simp add: decimal_integer_def defaultRetryDuration_5)
  next
    case False
    show ?thesis
    proof (cases "ParseInt raw")
      case (Inl e)
      then have no: "\<not> (decimal_integer raw = Some v \<and> - (2 ^ 31) \<le> v \<and> v < 2 ^ 31)" for v
        using ParseInt_Inr[of raw v] by simp
      have "retryDuration resp = 5 * Second"
        unfolding retryDuration_def raw_def[symmetric] Let_def
        using False Inl by (simp add: defaultRetryDuration_5)
      then show ?thesis using no by (auto split: option.splits)
    next
      case (Inr v)
      then have v: "decimal_integer raw = Some v" "- (2 ^ 31) \<le> v" "v < 2 ^ 31"
        using ParseInt_Inr[of raw v] by simp_all
      have "retryDuration resp = v * Second"
        unfolding retryDuration_def raw_def[symmetric] Let_def
        using False Inr wrap64_seconds[OF v(2,3)] by simp
      then show ?thesis using v by simp
    qed
  qed
  have tr: "list_all throttled pre \<and> \<not> throttled a \<longrightarrow>
        fst (doRequest AccessToken req (pre @ a # rest)) =
          concat (map (\<lambda>r. [Do (req\<lparr>ReqHeader :=
                Header_Set (Header_Set (ReqHeader req) ''Authorization'' (''Bearer '' @ AccessToken))
                  ''Content-Type'' ''application/json''\<rparr>), Sleep (retryDuration (projr r))]) pre)
          @ [Do (req\<lparr>ReqHeader :=
                Header_Set (Header_Set (ReqHeader req) ''Authorization'' (''Bearer '' @ AccessToken))
                  ''Content-Type'' ''application/json''\<rparr>)]"
  proof (intro impI, elim conjE)
    assume p: "list_all throttled pre" and na: "\<not> throttled a"
    show "fst (doRequest AccessToken req (pre @ a # rest)) =
          concat (map (\<lambda>r. [Do (req\<lparr>ReqHeader :=
                Header_Set (Header_Set (ReqHeader req) ''Authorization'' (''Bearer '' @ AccessToken))
                  ''Content-Type'' ''application/json''\<rparr>), Sleep (retryDuration (projr r))]) pre)
          @ [Do (req\<lparr>ReqHeader :=
                Header_Set (Header_Set (ReqHeader req) ''Authorization'' (''Bearer '' @ AccessToken))
                  ''Content-Type'' ''application/json''\<rparr>)]"
      unfolding doRequest_def Let_def doRequest_loop_throttled[OF p] doRequest_loop_final[OF na]
      by simp
  qed
  have "list_all throttled pre \<and> \<not> throttled a \<longrightarrow>
        waits (fst (doRequest AccessToken req (pre @ a # rest))) =
             map (\<lambda>r. retryDuration (projr r)) pre"
    using tr by (simp add: waits_throttled)
  with dur tr show ?thesis unfolding raw_def by blast
qed

lemma example_throttled: "list_all throttled [Inr resp_429_retry_2, Inr resp_1015_no_hint]"
  by (simp add: throttled_def resp_429_retry_2_def resp_1015_no_hint_def)

lemma example_not_throttled: "\<not> throttled (Inr resp_500)" "\<not> throttled (Inr resp_200)"
  by (simp_all add: throttled_def resp_500_def resp_200_def)

lemma example_durations:
  "retryDuration resp_429_retry_2 = 2000000000" "retryDuration resp_1015_no_hint = 5000000000"
  by (simp_all add: retryDuration_def resp_429_retry_2_def resp_1015_no_hint_def Header_Get_def
      ParseInt_def ParseUint_def defaultRetryDuration_5 Second_def wrap64_id)

text \<open>
  C6 at two rate-limited responses followed by a 500 or a 200: nothing is returned
  after the two, the 500 gives the error \<open>boom\<close> and the 200 gives the body, each
  after three attempts.
\<close>

theorem doRequest_determined_by_status_witness:
  "snd (doRequest ''token'' example_request [Inr resp_429_retry_2, Inr resp_1015_no_hint]) = None
   \<and> snd (doRequest ''token'' example_request
        [Inr resp_429_retry_2, Inr resp_1015_no_hint, Inl (TransportError ''EOF'')]) =
       Some (Inl (TransportError ''EOF''))
   \<and> snd (doRequest ''token'' example_request
        [Inr resp_429_retry_2, Inr resp_1015_no_hint, Inr resp_500]) = Some (Inl (Errorf ''boom''))
   \<and> snd (doRequest ''token'' example_request
        [Inr resp_429_retry_2, Inr resp_1015_no_hint, Inr resp_200]) = Some (Inr ''{}'')
   \<and> length (requests (fst (doRequest ''token'' example_request
        [Inr resp_429_retry_2, Inr resp_1015_no_hint, Inr resp_500, Inr resp_200]))) = 3"
proof -
  note t = doRequest_determined_by_status[OF example_throttled, of "''token''" example_request]
  have a: "snd (doRequest ''token'' example_request [Inr resp_429_retry_2, Inr resp_1015_no_hint]) = None"
    using t by blast
  have b: "snd (doRequest ''token'' example_request
        [Inr resp_429_retry_2, Inr resp_1015_no_hint, Inl (TransportError ''EOF'')]) =
       Some (Inl (TransportError ''EOF''))"
    using t[of "TransportError ''EOF''" "[]"] by simp
  have c: "snd (doRequest ''token'' example_request
        [Inr resp_429_retry_2, Inr resp_1015_no_hint, Inr resp_500]) = Some (Inl (Errorf ''boom''))"
    using t[of _ "[]" resp_500 "''boom''"] by (simp add: resp_500_def)
  have d: "snd (doRequest ''token'' example_request
        [Inr resp_429_retry_2, Inr resp_1015_no_hint, Inr resp_200]) = Some (Inr ''{}'')"
    using t[of _ "[]" resp_200 "''{}''"] by (simp add: resp_200_def)
  have e: "length (requests (fst (doRequest ''token'' example_request
        [Inr resp_429_retry_2, Inr resp_1015_no_hint, Inr resp_500, Inr resp_200]))) = 3"
    using t[of _ "[Inr resp_200]" _ _ "Inr resp_500"] example_not_throttled(1) by simp
  from a b c d e show ?thesis by blast
qed

text \<open>
  C7 at a 429 with \<open>Retry-After: 2\<close> followed by a 1015 without the header and
  then a 500: the client sleeps 2 seconds, then 5 seconds.
\<close>

theorem retryDuration_from_header_witness:
  "retryDuration resp_429_retry_2 = 2 * Second
   \<and> retryDuration resp_1015_no_hint = 5 * Second
   \<and> waits (fst (doRequest ''token'' example_request
        [Inr resp_429_retry_2, Inr resp_1015_no_hint, Inr resp_500])) = [2 * Second, 5 * Second]"
proof -
  have a: "retryDuration resp_429_retry_2 = 2 * Second"
    using retryDuration_from_header[of resp_429_retry_2 "[]" "Inr resp_500" "''token''" example_request "[]"]
    by (simp add: resp_429_retry_2_def Header_Get_def decimal_integer_def is_digit_def
        decimal_value_def decimal_step_def)
  have b: "retryDuration resp_1015_no_hint = 5 * Second"
    using retryDuration_from_header[of resp_1015_no_hint "[]" "Inr resp_500" "''token''" example_request "[]"]
    by (simp add: resp_1015_no_hint_def Header_Get_def decimal_integer_def)
  have c: "waits (fst (doRequest ''token'' example_request
        [Inr resp_429_retry_2, Inr resp_1015_no_hint, Inr resp_500])) =
          [retryDuration resp_429_retry_2, retryDuration resp_1015_no_hint]"
    using retryDuration_from_header[of resp_500 "[Inr resp_429_retry_2, Inr resp_1015_no_hint]"
        "Inr resp_500" "''token''" example_request "[]"]
      example_throttled example_not_throttled(1)
    by simp
  from a b c show ?thesis by simp
qed

section \<open>Properties of the text extractor\<close>

lemma findDivLyrics_attrs_eq:
  "findDivLyrics_attrs n attrs e =
     (if list_ex (\<lambda>attr. Key attr = ''id'' \<and> Val attr = ''lyrics-root'') attrs
      then (case stripBoilerplate n of
              Inl p \<Rightarrow> Inl p
            | Inr n' \<Rightarrow> Inr (False, e\<lparr>node := Some n'\<rparr>))
      else Inr (True, e))"
  by (induction attrs) auto

lemma findDivLyrics_eq:
  "findDivLyrics n e =
     (if DataAtom n = Atom_Div \<and> is_lyrics_root n
      then (case stripBoilerplate n of
              Inl p \<Rightarrow> Inl p
            | Inr n' \<Rightarrow> Inr (False, e\<lparr>node := Some n'\<rparr>))
      else Inr (True, e))"
  unfolding findDivLyrics_def is_lyrics_root_def findDivLyrics_attrs_eq by simp

lemma locate_all_append:
  "locate_all (xs @ ys) e =
     (case locate_all xs e of Inl p \<Rightarrow> Inl p | Inr e' \<Rightarrow> locate_all ys e')"
  by (induction xs arbitrary: e) (auto split: sum.splits)

lemma walk_findDivLyrics_located:
  "walk findDivLyrics n e = locate_all (located n) e"
  "walk_children findDivLyrics ns e = locate_all (concat (map located ns)) e"
proof (induction findDivLyrics n e and findDivLyrics ns e rule: walk_walk_children.induct)
  case (1 ty atom d attrs children e)
  note IH = 1
  show ?case
  proof (cases "ty = CommentNode \<or> ty = DoctypeNode \<or> ty = ErrorNode")
    case True
    then show ?thesis by auto
  next
    case skip: False
    show ?thesis
    proof (cases "atom = Atom_Div \<and> is_lyrics_root (Node ty atom d attrs children)")
      case True
      with skip show ?thesis by (auto simp: findDivLyrics_eq split: sum.splits)
    next
      case False
      then have f: "findDivLyrics (Node ty atom d attrs children) e = Inr (True, e)"
        by (auto simp: findDivLyrics_eq)
      have "walk_children findDivLyrics children e = locate_all (concat (map located children)) e"
        using IH[OF _ f] skip by simp
      with skip False f show ?thesis by auto
    qed
  qed
next
  case (2 e)
  show ?case by simp
next
  case (3 child siblings e)
  note IH = 3
  show ?case
  proof (cases "walk findDivLyrics child e")
    case (Inl p)
    then show ?thesis using IH(1) by (simp add: locate_all_append)
  next
    case (Inr e')
    then show ?thesis using IH by (simp add: locate_all_append)
  qed
qed

lemma locate_all_last:
  assumes "list_all (\<lambda>m. stripBoilerplate m = Inr (f m)) ms"
  shows "locate_all ms e = Inr (if ms = [] then e else e\<lparr>node := Some (f (last ms))\<rparr>)"
  using assms by (induction ms arbitrary: e) auto

lemma walk_htmlToText_visible:
  "walk htmlToText n e = Inr (e\<lparr>text' := text' e @ lines_of (visible_texts n)\<rparr>)"
  "walk_children htmlToText ns e =
     Inr (e\<lparr>text' := text' e @ lines_of (concat (map visible_texts ns))\<rparr>)"
proof (induction htmlToText n e and htmlToText ns e rule: walk_walk_children.induct)
  case (1 ty atom d attrs children e)
  note IH = 1
  show ?case
  proof (cases "ty = CommentNode \<or> ty = DoctypeNode \<or> ty = ErrorNode")
    case True
    then show ?thesis by (auto simp: lines_of_def)
  next
    case False
    define e' where "e' = (if ty = TextNode then e\<lparr>text' := text' e @ d @ [CHR 0x0A]\<rparr> else e)"
    have h: "htmlToText (Node ty atom d attrs children) e = Inr (True, e')"
      by (simp add: htmlToText_def e'_def)
    have "walk_children htmlToText children e' =
        Inr (e'\<lparr>text' := text' e' @ lines_of (concat (map visible_texts children))\<rparr>)"
      using IH[OF _ h] False by simp
    with False h show ?thesis by (auto simp: e'_def lines_of_def)
  qed
next
  case (2 e)
  show ?case by (simp add: lines_of_def)
next
  case (3 child siblings e)
  then show ?case by (simp add: lines_of_def)
qed

lemma removeFirstChildren_none:
  "\<not> list_ex (\<lambda>attr. Contains (Val attr) ''LyricsHeader'') attrs \<Longrightarrow>
   removeFirstChildren attrs children = Inr children"
  by (induction attrs) auto

lemma removeFirstChildren_single:
  "length (filter (\<lambda>attr. Contains (Val attr) ''LyricsHeader'') attrs) \<le> 1 \<Longrightarrow>
   children \<noteq> [] \<Longrightarrow>
   removeFirstChildren attrs children =
     Inr (if list_ex (\<lambda>attr. Contains (Val attr) ''LyricsHeader'') attrs
          then tl children else children)"
proof (induction attrs)
  case Nil
  show ?case by simp
next
  case (Cons a attrs)
  show ?case
  proof (cases "Contains (Val a) ''LyricsHeader''")
    case True
    with Cons.prems(1) have "filter (\<lambda>attr. Contains (Val attr) ''LyricsHeader'') attrs = []"
      by simp
    then have "\<not> list_ex (\<lambda>attr. Contains (Val attr) ''LyricsHeader'') attrs"
      by (simp add: list_ex_iff filter_empty_conv)
    then show ?thesis using True Cons.prems(2)
      by (cases children) (simp_all add: removeFirstChildren_none)
  next
    case False
    with Cons show ?thesis by simp
  qed
qed

lemma removeLastChildren_none:
  "\<not> list_ex (\<lambda>attr. Contains (Val attr) ''Footer'') attrs \<Longrightarrow>
   removeLastChildren attrs children = Inr children"
  by (induction attrs) auto

lemma removeLastChildren_single:
  "length (filter (\<lambda>attr. Contains (Val attr) ''Footer'') attrs) \<le> 1 \<Longrightarrow>
   children \<noteq> [] \<Longrightarrow>
   removeLastChildren attrs children =
     Inr (if list_ex (\<lambda>attr. Contains (Val attr) ''Footer'') attrs
          then butlast children else children)"
proof (induction attrs)
  case Nil
  show ?case by simp
next
  case (Cons a attrs)
  show ?case
  proof (cases "Contains (Val a) ''Footer''")
    case True
    with Cons.prems(1) have "filter (\<lambda>attr. Contains (Val attr) ''Footer'') attrs = []"
      by simp
    then have "\<not> list_ex (\<lambda>attr. Contains (Val attr) ''Footer'') attrs"
      by (simp add: list_ex_iff filter_empty_conv)
    then show ?thesis using True Cons.prems(2)
      by (simp add: removeLastChildren_none)
  next
    case False
    with Cons show ?thesis by simp
  qed
qed

lemma stripBoilerplate_stripped:
  assumes "Children c \<noteq> []"
    and "marker_count ''LyricsHeader'' (hd (Children c)) \<le> 1"
    and "without_header (Children c) \<noteq> []"
    and "marker_count ''Footer'' (last (without_header (Children c))) \<le> 1"
  shows "stripBoilerplate c = Inr (stripped c)"
proof -
  from assms(1) obtain firstChild others where cs: "Children c = firstChild # others"
    by (cases "Children c") auto
  have h: "removeFirstChildren (Attr firstChild) (firstChild # others) =
             Inr (without_header (Children c))"
    using removeFirstChildren_single[of "Attr firstChild" "firstChild # others"] assms(2)
    by (simp add: cs marker_count_def without_header_def marked_def)
  have f: "removeLastChildren (Attr (last (without_header (Children c)))) (without_header (Children c)) =
             Inr (without_footer (without_header (Children c)))"
    using removeLastChildren_single[OF _ assms(3), of "Attr (last (without_header (Children c)))"] assms(3,4)
    by (simp add: marker_count_def without_footer_def marked_def)
  show ?thesis
    unfolding stripBoilerplate_def stripped_def cs list.case h sum.case
    using assms(3) f by (simp add: cs)
qed

lemma parsed_shape_Node:
  "parsed_shape (Node ty atom d attrs children) \<longleftrightarrow>
     (ty = CommentNode \<or> ty = DoctypeNode \<or> ty = ErrorNode \<longrightarrow> children = [])
     \<and> (\<forall>child\<in>set children. parsed_shape child)"
  by (auto simp: parsed_shape_def list_all_iff)

lemma text_payloads_Node:
  "text_payloads (Node ty atom d attrs children) =
     (if ty = TextNode then [d] else []) @ concat (map text_payloads children)"
proof -
  have eq: "text_payloads = (\<lambda>n. map Data (filter (\<lambda>m. Type m = TextNode) (subtree_nodes n)))"
    by (rule ext) (simp add: text_payloads_def)
  show ?thesis unfolding eq by (simp add: map_concat filter_concat comp_def)
qed

lemma visible_texts_parsed:
  "parsed_shape n \<Longrightarrow> visible_texts n = text_payloads n"
proof (induction n)
  case (Node ty atom d attrs children)
  from Node.prems have leaf: "ty = CommentNode \<or> ty = DoctypeNode \<or> ty = ErrorNode \<longrightarrow> children = []"
    and sub: "\<forall>child\<in>set children. parsed_shape child"
    by (simp_all add: parsed_shape_Node)
  have "map visible_texts children = map text_payloads children"
    using Node.IH sub by simp
  then have "concat (map visible_texts children) = concat (map text_payloads children)"
    by (rule arg_cong)
  then show ?case using leaf by (simp add: text_payloads_Node)
qed

lemma subtree_nodes_self: "n \<in> set (subtree_nodes n)"
  by (cases n) simp

lemma subtree_nodes_trans:
  "m \<in> set (subtree_nodes n) \<Longrightarrow> set (subtree_nodes m) \<subseteq> set (subtree_nodes n)"
proof (induction n)
  case (Node ty atom d attrs children)
  show ?case
  proof (cases "m = Node ty atom d attrs children")
    case True
    then show ?thesis by simp
  next
    case False
    with Node.prems obtain child where "child \<in> set children" "m \<in> set (subtree_nodes child)"
      by auto
    with Node.IH show ?thesis by auto
  qed
qed

lemma parsed_shape_subtree:
  "parsed_shape n \<Longrightarrow> m \<in> set (subtree_nodes n) \<Longrightarrow> parsed_shape m"
  using subtree_nodes_trans[of m n] by (auto simp: parsed_shape_def list_all_iff)

lemma without_subset: "set (without_footer (without_header children)) \<subseteq> set children"
proof -
  have "set (without_footer xs) \<subseteq> set xs" for xs
    by (auto simp: without_footer_def dest: in_set_butlastD)
  moreover have "set (without_header xs) \<subseteq> set xs" for xs
    by (auto simp: without_header_def dest: list.set_sel(2))
  ultimately show ?thesis by blast
qed

lemma parsed_shape_stripped:
  assumes "parsed_shape c"
  shows "parsed_shape (stripped c)"
proof (cases c)
  case (Node ty atom d attrs children)
  with assms have leaf: "ty = CommentNode \<or> ty = DoctypeNode \<or> ty = ErrorNode \<longrightarrow> children = []"
    and sub: "\<forall>child\<in>set children. parsed_shape child"
    by (simp_all add: parsed_shape_Node)
  have "\<forall>child\<in>set (without_footer (without_header children)). parsed_shape child"
    using sub without_subset[of children] by blast
  moreover have "children = [] \<Longrightarrow> without_footer (without_header children) = []"
    by (simp add: without_footer_def without_header_def)
  ultimately show ?thesis using leaf Node by (auto simp: stripped_def parsed_shape_Node)
qed

lemma located_subset:
  "m \<in> set (located n) \<Longrightarrow>
   m \<in> set (subtree_nodes n) \<and> is_lyrics_root m \<and> DataAtom m = Atom_Div"
proof (induction n)
  case (Node ty atom d attrs children)
  show ?case
  proof (cases "atom = Atom_Div \<and> is_lyrics_root (Node ty atom d attrs children)")
    case True
    with Node.prems show ?thesis by (auto split: if_splits)
  next
    case False
    with Node.prems obtain child where "child \<in> set children" "m \<in> set (located child)"
      by (auto split: if_splits)
    with Node.IH show ?thesis by auto
  qed
qed

lemma located_none:
  "filter is_lyrics_root (subtree_nodes n) = [] \<Longrightarrow> located n = []"
proof (rule ccontr)
  assume e: "filter is_lyrics_root (subtree_nodes n) = []" and "located n \<noteq> []"
  then obtain m where "m \<in> set (located n)" by (cases "located n") auto
  then have "m \<in> set (filter is_lyrics_root (subtree_nodes n))"
    using located_subset by simp
  with e show False by simp
qed

lemma located_children_none:
  "filter is_lyrics_root (concat (map subtree_nodes xs)) = [] \<Longrightarrow> concat (map located xs) = []"
  by (induction xs) (simp_all add: located_none)

lemma located_children_unique:
  assumes "\<And>x. x \<in> set xs \<Longrightarrow> filter is_lyrics_root (subtree_nodes x) = [c] \<Longrightarrow> located x = [c]"
    and "filter is_lyrics_root (concat (map subtree_nodes xs)) = [c]"
  shows "concat (map located xs) = [c]"
  using assms
proof (induction xs)
  case Nil
  then show ?case by simp
next
  case (Cons x xs)
  let ?a = "filter is_lyrics_root (subtree_nodes x)"
  let ?b = "filter is_lyrics_root (concat (map subtree_nodes xs))"
  from Cons.prems(2) have ab: "?a @ ?b = [c]" by simp
  then consider (here) "?a = [c]" "?b = []" | (later) "?a = []" "?b = [c]"
    by (cases ?a) auto
  then show ?case
  proof cases
    case here
    have "located x = [c]" using Cons.prems(1)[of x] here(1) by simp
    moreover have "concat (map located xs) = []" using here(2) by (rule located_children_none)
    ultimately show ?thesis by simp
  next
    case later
    have "located x = []" using later(1) by (rule located_none)
    moreover have "concat (map located xs) = [c]"
      using Cons.IH Cons.prems(1) later(2) by simp
    ultimately show ?thesis by simp
  qed
qed

lemma located_unique:
  assumes "DataAtom c = Atom_Div" and "Children c \<noteq> []"
  shows "parsed_shape n \<Longrightarrow> filter is_lyrics_root (subtree_nodes n) = [c] \<Longrightarrow> located n = [c]"
proof (induction n)
  case (Node ty atom d attrs children)
  from Node.prems(1) have leaf: "ty = CommentNode \<or> ty = DoctypeNode \<or> ty = ErrorNode \<longrightarrow> children = []"
    and sub: "\<forall>child\<in>set children. parsed_shape child"
    by (simp_all add: parsed_shape_Node)
  show ?case
  proof (cases "is_lyrics_root (Node ty atom d attrs children)")
    case True
    with Node.prems(2) have c: "c = Node ty atom d attrs children" by simp
    with assms leaf have "atom = Atom_Div" "\<not> (ty = CommentNode \<or> ty = DoctypeNode \<or> ty = ErrorNode)"
      by auto
    with True c show ?thesis by simp
  next
    case False
    with Node.prems(2) have f: "filter is_lyrics_root (concat (map subtree_nodes children)) = [c]"
      by simp
    then have "children \<noteq> []" by auto
    with leaf have ns: "\<not> (ty = CommentNode \<or> ty = DoctypeNode \<or> ty = ErrorNode)" by auto
    have "concat (map located children) = [c]"
      using Node.IH sub f by (intro located_children_unique) auto
    with False ns show ?thesis by simp
  qed
qed

lemma Extract_located:
  assumes "walk findDivLyrics r (NewExtractor\<lparr>root := Some r\<rparr>) = Inr e1" and "node e1 = Some c'"
  shows "Extract (Inr r) = Inr (Inr (lines_of (visible_texts c')))"
proof -
  have "text' e1 = []"
  proof -
    have "\<And>e e'. locate_all ms e = Inr e' \<Longrightarrow> text' e' = text' e" for ms
      by (induction ms) (auto split: sum.splits)
    then show ?thesis using assms(1)
      by (simp add: walk_findDivLyrics_located NewExtractor_def)
  qed
  then show ?thesis
    unfolding Extract_def Let_def using assms by (simp add: walk_htmlToText_visible)
qed

lemma Extract_no_container:
  assumes "located r = []"
  shows "Extract (Inr r) = Inl NilPointerDereference"
  unfolding Extract_def Let_def
  by (simp add: walk_findDivLyrics_located assms NewExtractor_def)

lemma HasSuffix_append: "HasSuffix (s @ t) t"
  by (simp add: HasSuffix_def)

lemma HasSuffix_iff: "HasSuffix s t \<longleftrightarrow> (\<exists>p. s = p @ t)"
proof
  assume "HasSuffix s t"
  then have "s = take (length s - length t) s @ t"
    unfolding HasSuffix_def by (metis append_take_drop_id)
  then show "\<exists>p. s = p @ t" ..
next
  assume "\<exists>p. s = p @ t"
  then show "HasSuffix s t" using HasSuffix_append by auto
qed

lemma CutSuffix_append: "CutSuffix (s @ t) t = (s, True)"
  by (simp add: CutSuffix_def HasSuffix_append)

lemma subseq_concat_map:
  "(\<And>x. x \<in> set xs \<Longrightarrow> subseq (f x) (g x)) \<Longrightarrow>
   subseq (concat (map f xs)) (concat (map g xs))"
  by (induction xs) (auto intro: list_emb_append_mono)

lemma located_subseq:
  "subseq (located n)
     (filter (\<lambda>m. DataAtom m = Atom_Div \<and> is_lyrics_root m) (subtree_nodes n))"
proof (induction n)
  case (Node ty atom d attrs children)
  have sub: "subseq (concat (map located children))
      (concat (map (\<lambda>x. filter (\<lambda>m. DataAtom m = Atom_Div \<and> is_lyrics_root m) (subtree_nodes x)) children))"
    using Node.IH by (rule subseq_concat_map)
  show ?case
  proof (cases "atom = Atom_Div \<and> is_lyrics_root (Node ty atom d attrs children)")
    case True
    then show ?thesis by (auto simp: filter_concat comp_def)
  next
    case False
    then show ?thesis using sub by (auto simp: filter_concat comp_def)
  qed
qed

lemma locate_all_strippable:
  "\<forall>m\<in>set ms. strippable m \<Longrightarrow>
   locate_all ms e = Inr (if ms = [] then e else e\<lparr>node := Some (stripped (last ms))\<rparr>)"
proof (rule locate_all_last)
  assume "\<forall>m\<in>set ms. strippable m"
  then show "list_all (\<lambda>m. stripBoilerplate m = Inr (stripped m)) ms"
    unfolding list_all_iff strippable_def using stripBoilerplate_stripped by blast
qed

text \<open>
  Claim C2 as stated fails: on a page with a \<open>div\<close> and then a \<open>span\<close>, both
  with the id, two elements satisfy the id match and the last of them in document
  order is the \<open>span\<close>, but the text returned is that of the \<open>div\<close>.
\<close>

theorem Extract_div_then_span_counterexample:
  "filter is_lyrics_root (subtree_nodes page_div_then_span) =
     [elem Atom_Div ''div'' [(''id'', ''lyrics-root'')] [text_node ''old''],
      elem Atom_Span ''span'' [(''id'', ''lyrics-root'')] [text_node ''new'']]
   \<and> Extract (Inr page_div_then_span) = Inr (Inr (''old'' @ [CHR 0x0A]))"
proof -
  have "filter is_lyrics_root (subtree_nodes page_div_then_span) =
     [elem Atom_Div ''div'' [(''id'', ''lyrics-root'')] [text_node ''old''],
      elem Atom_Span ''span'' [(''id'', ''lyrics-root'')] [text_node ''new'']]"
    by (simp add: page_div_then_span_def document_def elem_def text_node_def is_lyrics_root_def)
  moreover have "Extract (Inr page_div_then_span) = Inr (Inr (''old'' @ [CHR 0x0A]))"
    by (simp add: Extract_def page_div_then_span_def document_def elem_def text_node_def
        NewExtractor_def findDivLyrics_def stripBoilerplate_def htmlToText_def)
  ultimately show ?thesis by blast
qed

text \<open>
  Claim C2, as amended. Let the locate pass encounter at least one \<open>div\<close> with the
  id (elements of another tag never match), each of them a container on which the
  removals do what the specification says. The pass does not stop at the first match:
  it goes on through the sibling branches, entering neither a matched \<open>div\<close> nor a
  comment, doctype or error node; the matches it encounters come in document order;
  and after it \<open>e.node\<close> is the last of them, with its boilerplate children removed,
  whatever was located before being overwritten. The text returned is that of this
  last match.
\<close>

theorem walk_findDivLyrics_last_match_wins:
  assumes "located r \<noteq> []" and "\<forall>m\<in>set (located r). strippable m"
  shows "walk findDivLyrics r e = Inr (e\<lparr>node := Some (stripped (last (located r)))\<rparr>)
    \<and> Extract (Inr r) = Inr (Inr (lines_of (visible_texts (stripped (last (located r))))))
    \<and> subseq (located r)
         (filter (\<lambda>m. DataAtom m = Atom_Div \<and> is_lyrics_root m) (subtree_nodes r))"
proof -
  have w: "walk findDivLyrics r e = Inr (e\<lparr>node := Some (stripped (last (located r)))\<rparr>)" for e
    using locate_all_strippable[OF assms(2)] assms(1) by (simp add: walk_findDivLyrics_located)
  have "Extract (Inr r) = Inr (Inr (lines_of (visible_texts (stripped (last (located r))))))"
    by (rule Extract_located[OF w]) simp
  with w located_subseq show ?thesis by blast
qed

text \<open>
  The amended C2 at a page with two containers, the second inside a paragraph: both
  are encountered and the text of the second is returned.
\<close>

theorem walk_findDivLyrics_last_match_wins_witness:
  "located page_two_containers =
     [elem Atom_Div ''div'' [(''id'', ''lyrics-root'')] [text_node ''old''],
      elem Atom_Div ''div'' [(''id'', ''lyrics-root'')] [text_node ''new'']]
   \<and> Extract (Inr page_two_containers) = Inr (Inr (''new'' @ [CHR 0x0A]))"
proof -
  have l: "located page_two_containers =
     [elem Atom_Div ''div'' [(''id'', ''lyrics-root'')] [text_node ''old''],
      elem Atom_Div ''div'' [(''id'', ''lyrics-root'')] [text_node ''new'']]"
    by (simp add: page_two_containers_def document_def elem_def text_node_def is_lyrics_root_def)
  have s: "strippable (elem Atom_Div ''div'' [(''id'', ''lyrics-root'')] [text_node t])" for t
    by (simp add: strippable_def elem_def text_node_def marker_count_def without_header_def marked_def)
  have h1: "located page_two_containers \<noteq> []" unfolding l by simp
  have h2: "\<forall>m\<in>set (located page_two_containers). strippable m" unfolding l using s by simp
  have st: "stripped (elem Atom_Div ''div'' [(''id'', ''lyrics-root'')] [text_node ''new'']) =
      elem Atom_Div ''div'' [(''id'', ''lyrics-root'')] [text_node ''new'']"
    by (simp add: stripped_def elem_def text_node_def without_header_def without_footer_def marked_def)
  have "Extract (Inr page_two_containers) = Inr (Inr (''new'' @ [CHR 0x0A]))"
    using walk_findDivLyrics_last_match_wins[OF h1 h2, of NewExtractor] unfolding l
    by (simp add: st) (simp add: elem_def text_node_def lines_of_def)
  with l show ?thesis by blast
qed

text \<open>
  Claim C10. \<open>findDivLyrics\<close> looks at the attributes of a node only when the atom
  of its tag is \<open>div\<close>. On a document in which no node carrying the id
  \<open>lyrics-root\<close> is a \<open>div\<close>, the locate pass leaves the extractor as it was: no
  container is located.
\<close>

theorem findDivLyrics_only_div:
  assumes "\<forall>n\<in>set (subtree_nodes r). is_lyrics_root n \<longrightarrow> DataAtom n \<noteq> Atom_Div"
  shows "walk findDivLyrics r e = Inr e"
proof -
  have "located r = []"
  proof (rule ccontr)
    assume "located r \<noteq> []"
    then obtain m where "m \<in> set (located r)" by (cases "located r") auto
    then have "m \<in> set (subtree_nodes r) \<and> is_lyrics_root m \<and> DataAtom m = Atom_Div"
      by (rule located_subset)
    with assms show False by blast
  qed
  then show ?thesis by (simp add: walk_findDivLyrics_located)
qed

text \<open>
  C10 at a page whose only element with the id is a \<open>span\<close>: after the locate pass
  \<open>e.node\<close> is still nil.
\<close>

theorem findDivLyrics_only_div_witness:
  "list_ex is_lyrics_root (subtree_nodes page_span_container)
   \<and> walk findDivLyrics page_span_container NewExtractor = Inr NewExtractor
   \<and> node NewExtractor = None"
proof -
  have h: "\<forall>n\<in>set (subtree_nodes page_span_container). is_lyrics_root n \<longrightarrow> DataAtom n \<noteq> Atom_Div"
    by (simp add: page_span_container_def document_def elem_def text_node_def is_lyrics_root_def)
  have "list_ex is_lyrics_root (subtree_nodes page_span_container)"
    by (simp add: page_span_container_def document_def elem_def text_node_def is_lyrics_root_def)
  then show ?thesis
    using findDivLyrics_only_div[OF h, of NewExtractor] by (simp add: NewExtractor_def)
qed

text \<open>
  Claim C5 at a well-formed page without any container: \<open>Extract\<close> does not return
  an error, it ends in a nil pointer dereference, the second walk being started on the
  nil \<open>e.node\<close>.
\<close>

theorem Extract_no_container_panics:
  "Extract (Inr page_no_container) = Inl NilPointerDereference"
proof -
  have "located page_no_container = []"
    by (simp add: page_no_container_def document_def elem_def text_node_def)
  then show ?thesis by (rule Extract_no_container)
qed

text \<open>
  Claim C9. After \<open>strings.TrimSpace\<close>, \<open>GetLyrics\<close> removes the suffix
  \<open>Embed\<close> when the trimmed text ends with exactly these five characters, and
  returns the trimmed text as it is otherwise; a text ending in \<open>Embedded\<close> is of
  the second kind.
\<close>

theorem GetLyrics_cuts_Embed_suffix:
  assumes "Extract (parse bodyBytes) = Inr (Inr lyrics)"
  shows "(TrimSpace lyrics = s @ ''Embed'' \<longrightarrow> GetLyrics parse (Inr bodyBytes) = Inr (Inr s))
    \<and> ((\<forall>p. TrimSpace lyrics \<noteq> p @ ''Embed'') \<longrightarrow>
         GetLyrics parse (Inr bodyBytes) = Inr (Inr (TrimSpace lyrics)))
    \<and> (TrimSpace lyrics = s @ ''Embedded'' \<longrightarrow>
         GetLyrics parse (Inr bodyBytes) = Inr (Inr (TrimSpace lyrics)))"
proof -
  have a: "GetLyrics parse (Inr bodyBytes) = Inr (Inr s)" if "TrimSpace lyrics = s @ ''Embed''"
    unfolding GetLyrics_def Let_def using assms that
    by (simp add: HasSuffix_append CutSuffix_append)
  have b: "GetLyrics parse (Inr bodyBytes) = Inr (Inr (TrimSpace lyrics))"
    if "\<not> HasSuffix (TrimSpace lyrics) ''Embed''"
    unfolding GetLyrics_def Let_def using assms that by simp
  have c: "\<not> HasSuffix (s @ ''Embedded'') ''Embed''"
    by (simp add: HasSuffix_def)
  from a b c show ?thesis by (auto simp: HasSuffix_iff)
qed

text \<open>
  C9 at a page whose container holds the text nodes \<open>la la\<close> and \<open>Embed\<close>: the
  extracted text is the two lines, and \<open>GetLyrics\<close> returns the first line with its
  newline.
\<close>

theorem GetLyrics_cuts_Embed_suffix_witness:
  "Extract (Inr page_embed) = Inr (Inr (''la la'' @ [CHR 0x0A] @ ''Embed'' @ [CHR 0x0A]))
   \<and> TrimSpace (''la la'' @ [CHR 0x0A] @ ''Embed'' @ [CHR 0x0A]) = (''la la'' @ [CHR 0x0A]) @ ''Embed''
   \<and> GetLyrics (\<lambda>bodyBytes. Inr page_embed) (Inr ''<html>'') = Inr (Inr (''la la'' @ [CHR 0x0A]))"
proof -
  have e: "Extract (Inr page_embed) = Inr (Inr (''la la'' @ [CHR 0x0A] @ ''Embed'' @ [CHR 0x0A]))"
    by (simp add: Extract_def page_embed_def document_def elem_def text_node_def NewExtractor_def
        findDivLyrics_def stripBoilerplate_def htmlToText_def)
  have t: "TrimSpace (''la la'' @ [CHR 0x0A] @ ''Embed'' @ [CHR 0x0A]) = (''la la'' @ [CHR 0x0A]) @ ''Embed''"
    by (simp add: TrimSpace_def spaceEncodings_def trimPrefix.simps)
  from GetLyrics_cuts_Embed_suffix[of "\<lambda>bodyBytes. Inr page_embed" "''<html>''", OF e,
      of "''la la'' @ [CHR 0x0A]"] t
  have "GetLyrics (\<lambda>bodyBytes. Inr page_embed) (Inr ''<html>'') = Inr (Inr (''la la'' @ [CHR 0x0A]))"
    by blast
  with e t show ?thesis by blast
qed

text \<open>
  Claim C1 as stated fails: a page whose single element with the id is a \<open>span\<close>
  satisfies its hypothesis, and \<open>Extract\<close> ends in a nil pointer dereference instead
  of returning the text of the element.
\<close>

theorem Extract_span_container_counterexample:
  "parsed_shape page_span_container
   \<and> filter is_lyrics_root (subtree_nodes page_span_container) =
       [elem Atom_Span ''span'' [(''id'', ''lyrics-root'')] [text_node ''line'']]
   \<and> Extract (Inr page_span_container) = Inl NilPointerDereference"
proof -
  have "located page_span_container = []"
    by (simp add: page_span_container_def document_def elem_def text_node_def)
  then have "Extract (Inr page_span_container) = Inl NilPointerDereference"
    by (rule Extract_no_container)
  moreover have "parsed_shape page_span_container"
    by (simp add: parsed_shape_def page_span_container_def document_def elem_def text_node_def)
  moreover have "filter is_lyrics_root (subtree_nodes page_span_container) =
       [elem Atom_Span ''span'' [(''id'', ''lyrics-root'')] [text_node ''line'']]"
    by (simp add: page_span_container_def document_def elem_def text_node_def is_lyrics_root_def)
  ultimately show ?thesis by blast
qed

text \<open>
  Claim C1, as amended. Let the document have the shape that \<open>html.Parse\<close> builds
  and exactly one node \<open>c\<close> with the attribute \<open>id="lyrics-root"\<close>, and let \<open>c\<close>
  be a \<open>div\<close> with at least one child, whose first child has at most one attribute
  value containing \<open>LyricsHeader\<close>, and which, once that child is removed if it is so
  marked, still has a child, the last of them with at most one attribute value
  containing \<open>Footer\<close>. Then \<open>Extract\<close> returns the text payloads of the text
  nodes of the subtree of \<open>c\<close>, in document order, each followed by a newline, after
  the removal of the first child if marked \<open>LyricsHeader\<close> and of the last child if
  marked \<open>Footer\<close>; and \<open>GetLyrics\<close> returns this text trimmed, without a final
  \<open>Embed\<close>.
\<close>

theorem Extract_single_container:
  assumes "parsed_shape r"
    and "filter is_lyrics_root (subtree_nodes r) = [c]"
    and "DataAtom c = Atom_Div"
    and "Children c \<noteq> []"
    and "marker_count ''LyricsHeader'' (hd (Children c)) \<le> 1"
    and "without_header (Children c) \<noteq> []"
    and "marker_count ''Footer'' (last (without_header (Children c))) \<le> 1"
  shows "Extract (Inr r) = Inr (Inr (lines_of (text_payloads (stripped c))))
    \<and> (parse bodyBytes = Inr r \<longrightarrow>
         GetLyrics parse (Inr bodyBytes) =
           Inr (Inr (fst (CutSuffix (TrimSpace (lines_of (text_payloads (stripped c)))) ''Embed''))))"
proof -
  have l: "located r = [c]" using located_unique[OF assms(3,4,1,2)] .
  have s: "stripBoilerplate c = Inr (stripped c)"
    using assms(4-7) by (rule stripBoilerplate_stripped)
  have "c \<in> set (filter is_lyrics_root (subtree_nodes r))" using assms(2) by simp
  then have "c \<in> set (subtree_nodes r)" by simp
  then have "parsed_shape c" using assms(1) parsed_shape_subtree by blast
  then have v: "visible_texts (stripped c) = text_payloads (stripped c)"
    by (intro visible_texts_parsed parsed_shape_stripped)
  have w: "walk findDivLyrics r (NewExtractor\<lparr>root := Some r\<rparr>) =
             Inr (NewExtractor\<lparr>root := Some r, node := Some (stripped c)\<rparr>)"
    by (simp add: walk_findDivLyrics_located l s)
  have e: "Extract (Inr r) = Inr (Inr (lines_of (text_payloads (stripped c))))"
    using Extract_located[OF w] v by simp
  have "GetLyrics parse (Inr bodyBytes) =
           Inr (Inr (fst (CutSuffix (TrimSpace (lines_of (text_payloads (stripped c)))) ''Embed'')))"
    if "parse bodyBytes = Inr r"
    unfolding GetLyrics_def Let_def using that e by (simp add: CutSuffix_def)
  with e show ?thesis by blast
qed

text \<open>
  The amended C1 at a page whose container holds a header, the lyrics and a footer:
  the two lines of the lyrics are returned, without the title and the credits.
\<close>

theorem Extract_single_container_witness:
  "Extract (Inr page_with_boilerplate) =
     Inr (Inr (''first line'' @ [CHR 0x0A] @ ''second line'' @ [CHR 0x0A]))
   \<and> GetLyrics (\<lambda>bodyBytes. Inr page_with_boilerplate) (Inr ''<html>'') =
     Inr (Inr (''first line'' @ [CHR 0x0A] @ ''second line''))"
proof -
  have h1: "parsed_shape page_with_boilerplate"
    by (simp add: parsed_shape_def page_with_boilerplate_def lyrics_container_def document_def
        elem_def text_node_def)
  have h2: "filter is_lyrics_root (subtree_nodes page_with_boilerplate) = [lyrics_container]"
    by (simp add: page_with_boilerplate_def lyrics_container_def document_def elem_def
        text_node_def is_lyrics_root_def)
  have h3: "DataAtom lyrics_container = Atom_Div"
    by (simp add: lyrics_container_def elem_def)
  have h4: "Children lyrics_container \<noteq> []"
    by (simp add: lyrics_container_def elem_def)
  have h5: "marker_count ''LyricsHeader'' (hd (Children lyrics_container)) \<le> 1"
    by (simp add: lyrics_container_def elem_def marker_count_def)
  have wh: "without_header (Children lyrics_container) =
      [elem Atom_Div ''div'' [(''class'', ''Lyrics__Container'')]
          [text_node ''first line'', elem Atom_Br ''br'' [] [], text_node ''second line''],
       elem Atom_Div ''div'' [(''class'', ''LyricsFooter__Container'')] [text_node ''Credits'']]"
    by (simp add: lyrics_container_def elem_def without_header_def marked_def)
  have h6: "without_header (Children lyrics_container) \<noteq> []"
    unfolding wh by simp
  have h7: "marker_count ''Footer'' (last (without_header (Children lyrics_container))) \<le> 1"
    unfolding wh by (simp add: elem_def marker_count_def)
  have st: "stripped lyrics_container =
      elem Atom_Div ''div'' [(''id'', ''lyrics-root'')]
        [elem Atom_Div ''div'' [(''class'', ''Lyrics__Container'')]
          [text_node ''first line'', elem Atom_Br ''br'' [] [], text_node ''second line'']]"
    unfolding stripped_def wh
    by (simp add: without_footer_def marked_def) (simp add: lyrics_container_def elem_def)
  have tx: "lines_of (text_payloads (stripped lyrics_container)) =
      ''first line'' @ [CHR 0x0A] @ ''second line'' @ [CHR 0x0A]"
    unfolding st by (simp add: lines_of_def text_payloads_def elem_def text_node_def)
  have tr: "TrimSpace (''first line'' @ [CHR 0x0A] @ ''second line'' @ [CHR 0x0A]) =
      ''first line'' @ [CHR 0x0A] @ ''second line''"
    by (simp add: TrimSpace_def spaceEncodings_def trimPrefix.simps)
  show ?thesis
    using Extract_single_container[OF h1 h2 h3 h4 h5 h6 h7,
        of "\<lambda>bodyBytes. Inr page_with_boilerplate" "''<html>''"]
    unfolding tx tr by (simp add: CutSuffix_def HasSuffix_def)
qed

end
